theory Spec2Isabelle
  imports Main "HOL-Library.Word" "HOL-Library.Multiset"
begin

unbundle bit_operations_syntax

section \<open>Machine types\<close>

type_synonym uint16 = "16 word"
type_synonym uint32 = "32 word"
type_synonym uint64 = "64 word"
type_synonym size_t = "64 word"

section \<open>StackAllocator (src/util/StackAllocator.h)\<close>

text \<open>
  Modelled from the spec: \<open>RoundUpToNextBoundaryT\<close> is declared outside the files at hand;
  the allocator's comment asks for a start address "aligned to the specified alignment", so
  the value is moved up to the next multiple of the boundary, in \<open>size_t\<close> arithmetic.
\<close>

definition RoundUpToNextBoundaryT :: "size_t \<Rightarrow> size_t \<Rightarrow> size_t" where
  "RoundUpToNextBoundaryT v boundary = v + (boundary - v mod boundary) mod boundary"

text \<open>
  The allocator's fields. A pointer into the buffer is modelled by its byte offset from
  \<open>_buffer\<close>, so \<open>_buffer\<close> itself is not a field.
\<close>

record StackAllocator =
  sa_capacity :: size_t
  sa_size :: size_t

text \<open>
  \<open>Alloc\<close>: the three \<open>ASSERT\<close>s are compiled out of a release build and do not guard
  the body, so the model is the body alone: the offset of the returned pointer and the
  allocator with its new \<open>_size\<close>.
\<close>

definition Alloc :: "StackAllocator \<Rightarrow> size_t \<Rightarrow> size_t \<Rightarrow> size_t \<times> StackAllocator" where
  "Alloc a sz alignment =
     (let paddedSize = RoundUpToNextBoundaryT (sa_size a) alignment
      in (paddedSize, a\<lparr>sa_size := paddedSize + sz\<rparr>))"

text \<open>
  A sequence of \<open>Alloc (size, alignment)\<close> calls on one allocator: for each call the
  region handed out (offset and size) and the allocator's \<open>_size\<close> after the call.
\<close>

fun alloc_calls :: "StackAllocator \<Rightarrow> (size_t \<times> size_t) list \<Rightarrow> (size_t \<times> size_t \<times> size_t) list" where
  "alloc_calls a [] = []"
| "alloc_calls a ((sz, al) # rs) =
     (let (p, a') = Alloc a sz al in (p, sz, sa_size a') # alloc_calls a' rs)"

text \<open>The value of \<open>_size\<close> before each call of the sequence (and after the last).\<close>

definition sizes_before :: "StackAllocator \<Rightarrow> (size_t \<times> size_t) list \<Rightarrow> size_t list" where
  "sizes_before a reqs = sa_size a # map (\<lambda>(p, sz, s). s) (alloc_calls a reqs)"

text \<open>The rounding the claim speaks of, on unbounded naturals.\<close>

definition round_up :: "nat \<Rightarrow> nat \<Rightarrow> nat" where
  "round_up n b = ((n + b - 1) div b) * b"

text \<open>
  A sequence of requests fits: every size and alignment is positive and every region,
  placed at the rounded-up current size, ends within the capacity.
\<close>

fun fits :: "StackAllocator \<Rightarrow> (size_t \<times> size_t) list \<Rightarrow> bool" where
  "fits a [] = True"
| "fits a ((sz, al) # rs) =
     (0 < sz \<and> 0 < al \<and>
      round_up (unat (sa_size a)) (unat al) + unat sz \<le> unat (sa_capacity a) \<and>
      fits (snd (Alloc a sz al)) rs)"

section \<open>Constants and identifiers\<close>

text \<open>\<open>#define P3_EXTRA_L_ENTRIES_TO_LOAD 1024\<close> (DiskPlotPhase3.cpp).\<close>

definition P3_EXTRA_L_ENTRIES_TO_LOAD :: nat where
  "P3_EXTRA_L_ENTRIES_TO_LOAD = 1024"

text \<open>
  Modelled from the spec: the plot constants are declared outside the files at hand. The
  spec gives \<open>k = 32\<close>, \<open>kExtraBits = 6\<close>, \<open>BB_DP_BUCKET_COUNT = 1 << kExtraBits\<close> and
  \<open>BB_DPP3_LP_BUCKET_COUNT = 256\<close>.
\<close>

definition K :: nat where
  "K = 32"

definition kExtraBits :: nat where
  "kExtraBits = 6"

definition BB_DP_BUCKET_COUNT :: nat where
  "BB_DP_BUCKET_COUNT = 2 ^ kExtraBits"

definition BB_DPP3_LP_BUCKET_COUNT :: nat where
  "BB_DPP3_LP_BUCKET_COUNT = 256"

text \<open>
  Modelled from the spec: \<open>enum TableId\<close> is declared outside the files at hand. Its seven
  values are consecutive integers (the code indexes arrays with \<open>(int)table\<close>, forms
  \<open>rTable - 1\<close> and steps with \<open>table++\<close>), so a table id is its integer.
\<close>

type_synonym TableId = nat

definition Table1 :: TableId where "Table1 = 0"
definition Table2 :: TableId where "Table2 = 1"
definition Table3 :: TableId where "Table3 = 2"
definition Table4 :: TableId where "Table4 = 3"
definition Table5 :: TableId where "Table5 = 4"
definition Table6 :: TableId where "Table6 = 5"
definition Table7 :: TableId where "Table7 = 6"

text \<open>
  Modelled from the spec: \<open>enum FileId\<close> and the functions from a table to its files
  (\<open>TableIdToMarkedEntriesFileId\<close>, \<open>TableIdToMapFileId\<close>, \<open>TableIdToBackPointerFileId\<close>
  and the file id after it, \<open>TableIdToLinePointFileId\<close>, \<open>TableIdToLinePointKeyFileId\<close>,
  \<open>TableIdToLinePointMapFileId\<close>) are declared outside the files at hand; each function
  is a constructor here. \<open>BACK_PTR_LEFT\<close> is the back pointer file that the code reads into
  \<open>pairs.left\<close> and \<open>BACK_PTR_RIGHT\<close> the file after it, read into \<open>pairs.right\<close>.
\<close>

datatype FileId =
    X
  | MARKED_ENTRIES TableId
  | MAP TableId
  | BACK_PTR_LEFT TableId
  | BACK_PTR_RIGHT TableId
  | LP TableId
  | LP_KEY TableId
  | LP_MAP TableId

section \<open>Buffers\<close>

text \<open>
  A buffer is a list of fixed length. \<open>blit buf off xs\<close> stores \<open>xs\<close> from index \<open>off\<close> on
  (\<open>memcpy\<close>, a read from disk, a run of stores through an advancing pointer). The part
  of \<open>xs\<close> that would fall behind the end of the buffer is dropped: in the program it
  would overwrite whatever lies behind the buffer, which is not modelled, and the theorems
  that depend on the stored data ask for buffers that are long enough.
\<close>

definition blit :: "'a list \<Rightarrow> nat \<Rightarrow> 'a list \<Rightarrow> 'a list" where
  "blit buf off xs =
     (if off \<le> length buf
      then take (length buf) (take off buf @ xs @ drop (off + length xs) buf)
      else buf)"

text \<open>\<open>slice buf off n\<close>: the \<open>n\<close> elements of \<open>buf\<close> from index \<open>off\<close> on.\<close>

definition slice :: "'a list \<Rightarrow> nat \<Rightarrow> nat \<Rightarrow> 'a list" where
  "slice buf off n = take n (drop off buf)"

section \<open>The disk queue (external collaborator)\<close>

text \<open>
  Modelled from the spec: \<open>DiskBufferQueue\<close> and \<open>Fence\<close> are declared outside the files
  at hand. Section 4.7 of the spec gives the contract: files are bucketed streams with a
  position per bucket; commands are carried out in the order of their submission by one IO
  worker; \<open>SignalFence (fence, id)\<close> makes the fence reach \<open>id\<close> once the commands before
  it are done; \<open>Fence.Wait (id)\<close> blocks until the fence has reached \<open>id\<close>.

  In the model a command takes effect when it is issued, and it is appended to the list
  of commands. The program commits every batch before the next wait, and a read that is
  still in flight only ever targets memory that the CPU side does not touch before the
  matching wait, so the order of effects is the order of issue. Every file holds its
  entries as 64-bit values; narrower entries are widened on writing and narrowed on
  reading. A read names its destination (a buffer of the phase and an offset in entries).
\<close>

datatype Buffer =
    B_markedEntries
  | B_lMap nat
  | B_rMap nat
  | B_left nat
  | B_right nat
  | B_loan

datatype Command =
    SeekBucketCmd FileId
  | SeekFileCmd FileId nat
  | ReadFileCmd FileId nat Buffer nat nat
  | WriteBucketsCmd FileId
  | WriteFileCmd FileId nat nat
  | DeleteFileCmd FileId nat
  | SignalFenceCmd nat

record DiskBufferQueue =
  files :: "FileId \<Rightarrow> nat \<Rightarrow> uint64 list"
  positions :: "FileId \<Rightarrow> nat \<Rightarrow> nat"
  commands :: "Command list"

text \<open>\<open>SeekBucket (file, 0, Begin)\<close>: every bucket of the file back to its start.\<close>

definition SeekBucket :: "FileId \<Rightarrow> DiskBufferQueue \<Rightarrow> DiskBufferQueue" where
  "SeekBucket f q =
     q\<lparr>positions := (positions q)(f := (\<lambda>b. 0)),
       commands := commands q @ [SeekBucketCmd f]\<rparr>"

text \<open>\<open>SeekFile (file, bucket, 0, Begin)\<close>: one bucket of the file back to its start.\<close>

definition SeekFile :: "FileId \<Rightarrow> nat \<Rightarrow> DiskBufferQueue \<Rightarrow> DiskBufferQueue" where
  "SeekFile f b q =
     q\<lparr>positions := (positions q)(f := (positions q f)(b := 0)),
       commands := commands q @ [SeekFileCmd f b]\<rparr>"

text \<open>
  \<open>ReadFile (file, bucket, buffer, size)\<close>: \<open>fileData\<close> is what the read delivers, the
  next \<open>n\<close> entries of the bucket (fewer at the end of the file); \<open>ReadFile\<close> is the queue
  after it, with the position moved on.
\<close>

definition fileData :: "FileId \<Rightarrow> nat \<Rightarrow> nat \<Rightarrow> DiskBufferQueue \<Rightarrow> uint64 list" where
  "fileData f b n q = slice (files q f b) (positions q f b) n"

definition ReadFile ::
  "FileId \<Rightarrow> nat \<Rightarrow> Buffer \<Rightarrow> nat \<Rightarrow> nat \<Rightarrow> DiskBufferQueue \<Rightarrow> DiskBufferQueue" where
  "ReadFile f b dst off n q =
     q\<lparr>positions := (positions q)(f := (positions q f)(b := positions q f b + length (fileData f b n q))),
       commands := commands q @ [ReadFileCmd f b dst off n]\<rparr>"

text \<open>Writing at the position of a bucket overwrites what is there and extends the file.\<close>

definition write_at :: "'a list \<Rightarrow> nat \<Rightarrow> 'a list \<Rightarrow> 'a list" where
  "write_at old pos xs = take pos old @ xs @ drop (pos + length xs) old"

definition WriteFile :: "FileId \<Rightarrow> nat \<Rightarrow> uint64 list \<Rightarrow> DiskBufferQueue \<Rightarrow> DiskBufferQueue" where
  "WriteFile f b xs q =
     q\<lparr>files := (files q)(f := (files q f)(b := write_at (files q f b) (positions q f b) xs)),
       positions := (positions q)(f := (positions q f)(b := positions q f b + length xs)),
       commands := commands q @ [WriteFileCmd f b (length xs)]\<rparr>"

text \<open>
  \<open>WriteBuckets (file, buffer, sizes)\<close>: the buffer holds the buckets one after the other;
  \<open>counts ! b\<close> entries of it go to bucket \<open>b\<close>.
\<close>

definition WriteBuckets :: "FileId \<Rightarrow> uint64 list \<Rightarrow> nat list \<Rightarrow> DiskBufferQueue \<Rightarrow> DiskBufferQueue" where
  "WriteBuckets f buf counts q =
     q\<lparr>files := (files q)(f := (\<lambda>b.
          if b < length counts
          then write_at (files q f b) (positions q f b) (slice buf (sum_list (take b counts)) (counts ! b))
          else files q f b)),
       positions := (positions q)(f := (\<lambda>b.
          if b < length counts
          then positions q f b + length (slice buf (sum_list (take b counts)) (counts ! b))
          else positions q f b)),
       commands := commands q @ [WriteBucketsCmd f]\<rparr>"

definition DeleteFile :: "FileId \<Rightarrow> nat \<Rightarrow> DiskBufferQueue \<Rightarrow> DiskBufferQueue" where
  "DeleteFile f b q =
     q\<lparr>files := (files q)(f := (files q f)(b := [])),
       positions := (positions q)(f := (positions q f)(b := 0)),
       commands := commands q @ [DeleteFileCmd f b]\<rparr>"

definition SignalFenceQ :: "nat \<Rightarrow> DiskBufferQueue \<Rightarrow> DiskBufferQueue" where
  "SignalFenceQ i q = q\<lparr>commands := commands q @ [SignalFenceCmd i]\<rparr>"

text \<open>
  \<open>GetBuffer (size)\<close> loans a buffer whose contents are whatever the ring held; the model
  hands out zeros and no theorem below depends on them.
\<close>

definition GetBuffer :: "nat \<Rightarrow> 'a::zero list" where
  "GetBuffer n = replicate n 0"

text \<open>
  What a step of the phase comes to: it returns with a state, or it blocks for ever in
  \<open>Fence.Wait (id)\<close>, in the state reached there, because no command that is submitted
  signals \<open>id\<close> and only the waiting thread submits commands.
\<close>

datatype 's Outcome = Returns 's | WaitsForever nat 's

section \<open>Collaborators of the kernels\<close>

text \<open>
  Modelled from the spec: \<open>BitField\<close> is declared outside the files at hand. The marked
  bitmap holds a bit per r-entry, keyed by the entry's original index, in 64-bit fields.
  The order of the bits within a field is not given by the spec; nothing below depends on
  it. \<open>popcount\<close> is the number of bits set in the whole bitmap.
\<close>

definition BitField_Get :: "uint64 list \<Rightarrow> nat \<Rightarrow> bool" where
  "BitField_Get bits index = bit (bits ! (index div 64)) (index mod 64)"

definition popcount :: "uint64 list \<Rightarrow> nat" where
  "popcount bits = length (filter (BitField_Get bits) [0..<64 * length bits])"

text \<open>
  Modelled from the spec: \<open>SquareToLinePoint\<close> is declared outside the files at hand
  (memplot/LPGen.h). The spec gives \<open>LP (x, y) = T (max) + min\<close> with
  \<open>T (n) = n (n - 1) / 2\<close>, on 64-bit values.
\<close>

definition SquareToLinePoint :: "uint64 \<Rightarrow> uint64 \<Rightarrow> uint64" where
  "SquareToLinePoint x y = (let a = max x y; b = min x y in (a * (a - 1)) div 2 + b)"

text \<open>
  Modelled from the spec: \<open>RadixSort256::SortWithKey\<close> is declared outside the files at
  hand. It sorts the first \<open>n\<close> line points ascending and the key array rides the sort; a
  byte-wise LSD radix sort is stable.
\<close>

definition SortWithKey :: "uint64 list \<Rightarrow> uint32 list \<Rightarrow> nat \<Rightarrow> uint64 list \<times> uint32 list" where
  "SortWithKey lps keys n =
     (let sorted = sort_key fst (map (\<lambda>i. (lps ! i, keys ! i)) [0..<n])
      in (map fst sorted, map snd sorted))"

text \<open>
  Modelled from the spec: \<open>MTJob\<close> and \<open>PrefixSumJob\<close> are declared outside the files at
  hand. A job runs on \<open>T\<close> threads with ids \<open>0..T-1\<close>; the control thread is thread 0 and
  the last thread is thread \<open>T - 1\<close>. Every \<open>Run ()\<close> of the phase splits \<open>n\<close> entries the
  same way: \<open>n / T\<close> entries per thread, from \<open>(n / T) * id\<close> on, and the last thread takes
  the remainder as well.
\<close>

definition JobOffset :: "nat \<Rightarrow> nat \<Rightarrow> nat \<Rightarrow> nat" where
  "JobOffset T n j = (n div T) * j"

definition JobEntries :: "nat \<Rightarrow> nat \<Rightarrow> nat \<Rightarrow> nat" where
  "JobEntries T n j =
     (let entryCount = n div T
      in if j + 1 = T then entryCount + (n - entryCount * T) else entryCount)"

text \<open>
  Modelled from the spec: \<open>PrefixSumJob::CalculatePrefixSum\<close> (section 4.6). From the
  bucket counts of all threads, \<open>total[b]\<close> is the sum over the threads and thread \<open>j\<close>
  gets the end of its slot in bucket \<open>b\<close>: the entries of the buckets before \<open>b\<close>, which
  precede bucket \<open>b\<close> in the one output buffer that \<open>WriteBuckets\<close> cuts by the totals, and
  the entries of bucket \<open>b\<close> of the threads up to and including \<open>j\<close>. All in \<open>uint32\<close>.
\<close>

definition bucketTotals :: "nat \<Rightarrow> uint32 list list \<Rightarrow> uint32 list" where
  "bucketTotals B counts = map (\<lambda>b. sum_list (map (\<lambda>c. c ! b) counts)) [0..<B]"

definition CalculatePrefixSum :: "nat \<Rightarrow> uint32 list list \<Rightarrow> nat \<Rightarrow> uint32 list" where
  "CalculatePrefixSum B counts j =
     map (\<lambda>b. sum_list (take b (bucketTotals B counts))
               + sum_list (map (\<lambda>c. c ! b) (take (j + 1) counts))) [0..<B]"

section \<open>Step 1 kernel: ConvertToLPJob\<close>

record Pairs =
  left :: "uint32 list"
  right :: "uint16 list"

text \<open>The inputs that \<open>PointersToLinePoints\<close> hands to every thread of the job.\<close>

record ConvertToLPJob =
  bucketEntryCount :: uint32
  jobMarkedEntries :: "uint64 list"
  jobLMap :: "uint32 list"
  jobRMap :: "uint32 list"
  jobPairs :: Pairs

text \<open>
  First scan of \<open>ConvertToLPJob::Run\<close>: the positions of the thread's range whose
  original index \<open>rMap[i]\<close> is marked; \<open>prunedLength\<close> is their number.
\<close>

definition prunedIndices :: "nat \<Rightarrow> ConvertToLPJob \<Rightarrow> nat \<Rightarrow> nat list" where
  "prunedIndices T job j =
     (let n = unat (bucketEntryCount job);
          bucketOffset = JobOffset T n j;
          endIdx = bucketOffset + JobEntries T n j
      in filter (\<lambda>i. BitField_Get (jobMarkedEntries job) (unat (jobRMap job ! i)))
           [bucketOffset..<endIdx])"

definition prunedLength :: "nat \<Rightarrow> ConvertToLPJob \<Rightarrow> nat \<Rightarrow> nat" where
  "prunedLength T job j = length (prunedIndices T job j)"

text \<open>After the barrier: \<open>dstOffset\<close> is the sum of \<open>prunedEntryCount\<close> of the threads before.\<close>

definition dstOffset :: "nat \<Rightarrow> ConvertToLPJob \<Rightarrow> nat \<Rightarrow> nat" where
  "dstOffset T job j = sum_list (map (prunedLength T job) [0..<j])"

text \<open>
  The local \<open>struct Pair { uint32 left; uint32 right; }\<close> is stored through a pointer into
  the \<open>uint64\<close> line point buffer: one pair per 64-bit slot, \<open>left\<close> in the low half.
\<close>

definition Pair_store :: "uint32 \<Rightarrow> uint32 \<Rightarrow> uint64" where
  "Pair_store l r = ucast l OR push_bit 32 (ucast r)"

definition Pair_left :: "uint64 \<Rightarrow> uint32" where
  "Pair_left w = ucast w"

definition Pair_right :: "uint64 \<Rightarrow> uint32" where
  "Pair_right w = ucast (drop_bit 32 w)"

text \<open>
  Second scan: the pruned pairs \<open>(left, left + right)\<close> go to the line point buffer and the
  original indices to the pruned map, both from \<open>dstOffset\<close> on.
\<close>

definition writePruned ::
  "nat \<Rightarrow> ConvertToLPJob \<Rightarrow> nat \<Rightarrow> uint64 list \<times> uint32 list \<Rightarrow> uint64 list \<times> uint32 list" where
  "writePruned T job j bufs =
     (let idx = prunedIndices T job j;
          dst = dstOffset T job j;
          outPairs = map (\<lambda>i. let l = left (jobPairs job) ! i
                               in Pair_store l (l + ucast (right (jobPairs job) ! i))) idx;
          outRMap = map (\<lambda>i. jobRMap job ! i) idx
      in (blit (fst bufs) dst outPairs, blit (snd bufs) dst outRMap))"

text \<open>Then every pruned pair is replaced, in its slot, by its line point.\<close>

definition toLinePoints :: "nat \<Rightarrow> ConvertToLPJob \<Rightarrow> nat \<Rightarrow> uint64 list \<Rightarrow> uint64 list" where
  "toLinePoints T job j lpBuf =
     (let dst = dstOffset T job j;
          lps = map (\<lambda>i. let p = lpBuf ! (dst + i);
                              x = ucast (jobLMap job ! unat (Pair_left p));
                              y = ucast (jobLMap job ! unat (Pair_right p))
                          in SquareToLinePoint x y) [0..<prunedLength T job j]
      in blit lpBuf dst lps)"

text \<open>
  The two buffers when every thread has reached the barrier in \<open>CalculatePrefixSum\<close>.
  The threads write to disjoint slots, so they are taken one after the other.
\<close>

definition convertAll ::
  "nat \<Rightarrow> ConvertToLPJob \<Rightarrow> uint64 list \<times> uint32 list \<Rightarrow> uint64 list \<times> uint32 list" where
  "convertAll T job bufs =
     fold (\<lambda>j b. let w = writePruned T job j b in (toLinePoints T job j (fst w), snd w))
       [0..<T] bufs"

text \<open>
  \<open>DistributeToBuckets (prunedLength, outLinePoints, outRMap)\<close>. The line points are the
  thread's slots from \<open>dstOffset\<close> on. The key pointer is \<open>outRMap\<close> as the second scan left
  it: that scan advanced it once for every entry it stored, so it points
  \<open>prunedLength\<close> entries behind the thread's first key.
\<close>

definition lpBucket :: "uint64 \<Rightarrow> nat" where
  "lpBucket lp = unat (drop_bit 56 lp)"

definition countUp :: "nat \<Rightarrow> uint32 list \<Rightarrow> uint32 list" where
  "countUp b counts = counts[b := counts ! b + 1]"

definition lpCounts :: "nat \<Rightarrow> ConvertToLPJob \<Rightarrow> uint64 list \<Rightarrow> nat \<Rightarrow> uint32 list" where
  "lpCounts T job lpBuf j =
     fold (\<lambda>i. countUp (lpBucket (lpBuf ! (dstOffset T job j + i))))
       [0..<prunedLength T job j] (replicate BB_DPP3_LP_BUCKET_COUNT 0)"

definition distributeStep ::
  "uint64 \<Rightarrow> uint32 \<Rightarrow> uint32 list \<times> uint64 list \<times> uint32 list
     \<Rightarrow> uint32 list \<times> uint64 list \<times> uint32 list" where
  "distributeStep lp key st =
     (case st of (pfxSum, lpOut, keyOut) \<Rightarrow>
        let bucket = lpBucket lp;
            dstIndex = pfxSum ! bucket - 1
        in (pfxSum[bucket := dstIndex], lpOut[unat dstIndex := lp], keyOut[unat dstIndex := key]))"

definition distribute ::
  "nat \<Rightarrow> ConvertToLPJob \<Rightarrow> uint64 list \<times> uint32 list \<Rightarrow> uint32 list \<Rightarrow> nat
     \<Rightarrow> uint64 list \<times> uint32 list \<Rightarrow> uint64 list \<times> uint32 list" where
  "distribute T job bufs pfxSum j out =
     (let dst = dstOffset T job j;
          n = prunedLength T job j
      in snd (fold (\<lambda>i. distributeStep (fst bufs ! (dst + i)) (snd bufs ! (dst + n + i)))
                [0..<n] (pfxSum, out)))"

text \<open>
  The control thread's sum: its own \<open>entryCount\<close> and \<open>prunedEntryCount\<close> of the threads
  \<open>1..T-1\<close>.
\<close>

definition totalPrunedEntryCount :: "nat \<Rightarrow> ConvertToLPJob \<Rightarrow> nat" where
  "totalPrunedEntryCount T job = prunedLength T job 0 + sum_list (map (prunedLength T job) [1..<T])"

text \<open>
  The whole job: the buffers after it, the bucket totals that the control thread keeps, the
  two output buffers in bucket order and the total.
\<close>

record ConvertToLPResult =
  resBuffers :: "uint64 list \<times> uint32 list"
  resBucketCounts :: "uint32 list"
  resLpOutBuffer :: "uint64 list"
  resKeyOutBuffer :: "uint32 list"
  resTotalPrunedEntryCount :: nat

definition ConvertToLPJob_Run ::
  "nat \<Rightarrow> ConvertToLPJob \<Rightarrow> uint64 list \<times> uint32 list \<Rightarrow> ConvertToLPResult" where
  "ConvertToLPJob_Run T job bufs =
     (let bufs' = convertAll T job bufs;
          counts = map (lpCounts T job (fst bufs')) [0..<T];
          total = totalPrunedEntryCount T job;
          out = fold (\<lambda>j. distribute T job bufs' (CalculatePrefixSum BB_DPP3_LP_BUCKET_COUNT counts j) j)
                  [0..<T] (GetBuffer total, GetBuffer total)
      in \<lparr>resBuffers = bufs',
          resBucketCounts = bucketTotals BB_DPP3_LP_BUCKET_COUNT counts,
          resLpOutBuffer = fst out,
          resKeyOutBuffer = snd out,
          resTotalPrunedEntryCount = total\<rparr>)"

section \<open>Step 2 kernel: WriteLPMapJob\<close>

definition mapBucket :: "uint32 \<Rightarrow> nat" where
  "mapBucket key = unat (drop_bit (32 - kExtraBits) key)"

text \<open>
  The counting loop of \<open>WriteLPMapJob::Run\<close> starts at the member \<open>inKey\<close>: the local
  \<open>inKey\<close>, which adds the thread's offset, is declared only after the loop. Every thread
  counts the first \<open>entriesPerThread\<close> keys of the bucket.
\<close>

definition mapCounts :: "nat \<Rightarrow> nat \<Rightarrow> uint32 list \<Rightarrow> nat \<Rightarrow> uint32 list" where
  "mapCounts T n inKey j =
     fold (\<lambda>i. countUp (mapBucket (inKey ! i)))
       [0..<JobEntries T n j] (replicate BB_DP_BUCKET_COUNT 0)"

text \<open>The record that the thread builds for its \<open>i\<close>-th key.\<close>

definition mapRecord :: "nat \<Rightarrow> nat \<Rightarrow> uint64 \<Rightarrow> uint32 list \<Rightarrow> nat \<Rightarrow> nat \<Rightarrow> uint64" where
  "mapRecord T n entryOffset inKey j i =
     (let offset = JobOffset T n j;
          entryOffset' = entryOffset + of_nat offset;
          key = inKey ! (offset + i)
      in push_bit 32 (entryOffset' + of_nat i) OR ucast key)"

definition writeMapStep ::
  "nat \<Rightarrow> nat \<Rightarrow> uint64 \<Rightarrow> uint32 list \<Rightarrow> nat \<Rightarrow> nat \<Rightarrow> uint32 list \<times> uint64 list
     \<Rightarrow> uint32 list \<times> uint64 list" where
  "writeMapStep T n entryOffset inKey j i st =
     (case st of (pfxSum, outMap) \<Rightarrow>
        let key = inKey ! (JobOffset T n j + i);
            bucket = mapBucket key;
            writeIdx = pfxSum ! bucket - 1
        in (pfxSum[bucket := writeIdx],
            outMap[unat writeIdx := mapRecord T n entryOffset inKey j i]))"

definition writeMap ::
  "nat \<Rightarrow> nat \<Rightarrow> uint64 \<Rightarrow> uint32 list \<Rightarrow> uint32 list \<Rightarrow> nat \<Rightarrow> uint64 list \<Rightarrow> uint64 list" where
  "writeMap T n entryOffset inKey pfxSum j outMap =
     snd (fold (writeMapStep T n entryOffset inKey j) [0..<JobEntries T n j] (pfxSum, outMap))"

text \<open>The job on all threads: the output buffer and the totals kept by thread 0.\<close>

definition WriteLPMapJob_Run ::
  "nat \<Rightarrow> nat \<Rightarrow> uint64 \<Rightarrow> uint32 list \<Rightarrow> uint64 list \<times> uint32 list" where
  "WriteLPMapJob_Run T n entryOffset inKey =
     (let counts = map (mapCounts T n inKey) [0..<T];
          outMap = fold (\<lambda>j. writeMap T n entryOffset inKey
                               (CalculatePrefixSum BB_DP_BUCKET_COUNT counts j) j)
                     [0..<T] (GetBuffer n)
      in (outMap, bucketTotals BB_DP_BUCKET_COUNT counts))"

section \<open>Step 3 kernel: LPUnpackMapJob\<close>

text \<open>\<open>(uint32)( (1ull << _K) / BB_DP_BUCKET_COUNT )\<close>.\<close>

definition fixedBucketLength :: uint32 where
  "fixedBucketLength = ucast ((push_bit K 1 :: uint64) div of_nat BB_DP_BUCKET_COUNT)"

definition unpackIndex :: "nat \<Rightarrow> uint64 \<Rightarrow> uint32" where
  "unpackIndex bucket m = ucast m - fixedBucketLength * of_nat bucket"

text \<open>
  \<open>mapDst[idx] = (uint32)(m >> 32)\<close>. The index is unsigned; an index outside the write
  buffer is a store outside it, which is undefined behaviour in the program: the result
  is \<open>None\<close>.
\<close>

definition unpackStore :: "nat \<Rightarrow> uint64 \<Rightarrow> uint32 list \<Rightarrow> uint32 list option" where
  "unpackStore bucket m mapDst =
     (let idx = unat (unpackIndex bucket m)
      in if idx < length mapDst then Some (mapDst[idx := ucast (drop_bit 32 m)]) else None)"

text \<open>
  A run of steps each of which may leave its buffers: \<open>None\<close> from the first such step on.
\<close>

primrec steps :: "('i \<Rightarrow> 's \<Rightarrow> 's option) \<Rightarrow> 'i list \<Rightarrow> 's \<Rightarrow> 's option" where
  "steps f [] s = Some s"
| "steps f (i # rest) s = (case f i s of None \<Rightarrow> None | Some s' \<Rightarrow> steps f rest s')"

text \<open>
  \<open>Run\<close> of one thread: the loop over the thread's records. A record read behind the
  end of \<open>mapSrc\<close> is a read outside the buffer, \<open>None\<close> as well.
\<close>

definition LPUnpackMapJob_Run ::
  "nat \<Rightarrow> nat \<Rightarrow> nat \<Rightarrow> uint64 list \<Rightarrow> nat \<Rightarrow> uint32 list \<Rightarrow> uint32 list option" where
  "LPUnpackMapJob_Run T bucket n mapSrc j mapDst =
     steps (\<lambda>i dst. if JobOffset T n j + i < length mapSrc
                     then unpackStore bucket (mapSrc ! (JobOffset T n j + i)) dst
                     else None)
       [0..<JobEntries T n j] mapDst"

text \<open>
  \<open>RunJob\<close>: all threads. Two threads store to the same index only when two records name
  it; the threads are taken in the order of their ids.
\<close>

definition LPUnpackMapJob_RunJob ::
  "nat \<Rightarrow> nat \<Rightarrow> nat \<Rightarrow> uint64 list \<Rightarrow> uint32 list \<Rightarrow> uint32 list option" where
  "LPUnpackMapJob_RunJob T bucket n mapSrc mapDst =
     steps (LPUnpackMapJob_Run T bucket n mapSrc) [0..<T] mapDst"

section \<open>The phase\<close>

text \<open>
  The fields of \<open>DiskPlotContext\<close> and of \<open>DiskPlotPhase3\<close> that the phase uses. The class
  declaration at hand (DiskPlotPhase3.h) predates the implementation, so the fields and
  their types are taken from their uses in DiskPlotPhase3.cpp. The two halves of each
  double buffer are fields of their own.
\<close>

record DiskPlotPhase3 =
  entryCounts :: "TableId \<Rightarrow> uint64"
  bucketCounts :: "TableId \<Rightarrow> nat \<Rightarrow> uint32"
  ptrTableBucketCounts :: "TableId \<Rightarrow> nat \<Rightarrow> uint32"
  threadCount :: nat
  bitFieldSize :: nat
  ioQueue :: DiskBufferQueue
  markedEntries :: "uint64 list"
  lMap0 :: "uint32 list"
  lMap1 :: "uint32 list"
  rMap0 :: "uint32 list"
  rMap1 :: "uint32 list"
  rTablePairs0 :: Pairs
  rTablePairs1 :: Pairs
  rPrunedMap :: "uint32 list"
  linePoints :: "uint64 list"
  readFence :: nat
  prunedEntryCount :: uint64
  lpBucketCounts :: "uint32 list"
  lMapBucketCounts :: "uint32 list"
  rTableOffset :: uint64

text \<open>\<open>ioQueue.SignalFence (readFence, id)\<close>: the command, and the fence reaching \<open>id\<close>.\<close>

definition SignalFence :: "nat \<Rightarrow> DiskPlotPhase3 \<Rightarrow> DiskPlotPhase3" where
  "SignalFence i s = s\<lparr>ioQueue := SignalFenceQ i (ioQueue s), readFence := i\<rparr>"

text \<open>A loop over buckets that stops where its body blocks.\<close>

fun forBuckets :: "(nat \<Rightarrow> 's \<Rightarrow> 's Outcome) \<Rightarrow> nat list \<Rightarrow> 's \<Rightarrow> 's Outcome" where
  "forBuckets body [] s = Returns s"
| "forBuckets body (b # bs) s =
     (case body b s of
        Returns s' \<Rightarrow> forBuckets body bs s'
      | WaitsForever i s' \<Rightarrow> WaitsForever i s')"

subsection \<open>First step\<close>

definition lMapId :: "TableId \<Rightarrow> FileId" where
  "lMapId rTable = (if rTable = Table2 then X else LP_MAP (rTable - 1))"

text \<open>
  \<open>PointersToLinePoints\<close>: runs the job on the current buffers, writes the two output
  buffers to the buckets of the line point file and of the key file (the sizes are
  \<open>uint32\<close> byte counts), adds the bucket totals to \<open>_lpBucketCounts\<close> and returns the
  total truncated to \<open>uint32\<close>.
\<close>

definition PointersToLinePoints ::
  "TableId \<Rightarrow> uint32 \<Rightarrow> DiskPlotPhase3 \<Rightarrow> uint32 \<times> DiskPlotPhase3" where
  "PointersToLinePoints rTable entryCount s =
     (let job = \<lparr>bucketEntryCount = entryCount, jobMarkedEntries = markedEntries s,
                 jobLMap = lMap0 s, jobRMap = rMap0 s, jobPairs = rTablePairs0 s\<rparr>;
          res = ConvertToLPJob_Run (threadCount s) job (linePoints s, rPrunedMap s);
          counts = resBucketCounts res;
          q1 = WriteBuckets (LP rTable) (resLpOutBuffer res)
                 (map (\<lambda>c. unat (c * 8) div 8) counts) (ioQueue s);
          q2 = WriteBuckets (LP_KEY rTable) (map ucast (resKeyOutBuffer res))
                 (map (\<lambda>c. unat (c * 4) div 4) counts) q1
      in (of_nat (resTotalPrunedEntryCount res),
          s\<lparr>ioQueue := q2,
            linePoints := fst (resBuffers res),
            rPrunedMap := snd (resBuffers res),
            lpBucketCounts := map (\<lambda>i. lpBucketCounts s ! i + counts ! i)
                                [0..<BB_DPP3_LP_BUCKET_COUNT]\<rparr>))"

text \<open>
  \<open>BucketFirstStep\<close>: waits for the bucket's fence, converts, adds the pruned count and
  moves the table offset on. (The \<open>_DEBUG\<close> block only asserts.)
\<close>

definition BucketFirstStep :: "TableId \<Rightarrow> nat \<Rightarrow> DiskPlotPhase3 \<Rightarrow> DiskPlotPhase3 Outcome" where
  "BucketFirstStep rTable bucket s =
     (let bucketEntryCountR = ptrTableBucketCounts s rTable bucket
      in if readFence s < bucket + 1 then WaitsForever (bucket + 1) s
         else
           let r = PointersToLinePoints rTable bucketEntryCountR s;
               s' = snd r
           in Returns (s'\<lparr>prunedEntryCount := prunedEntryCount s' + ucast (fst r),
                          rTableOffset := rTableOffset s' + ucast bucketEntryCountR\<rparr>))"

text \<open>
  The seeks and the read of the first bucket: the l-table goes to the start of
  \<open>_lMap[0]\<close>, \<open>P3_EXTRA_L_ENTRIES_TO_LOAD\<close> entries more than the bucket holds. The result
  is \<open>lEntriesLoaded\<close> and the state.
\<close>

definition readFirstBucket :: "TableId \<Rightarrow> DiskPlotPhase3 \<Rightarrow> uint64 \<times> DiskPlotPhase3" where
  "readFirstBucket rTable s =
     (let lTable = rTable - 1;
          q0 = SeekFile (BACK_PTR_RIGHT rTable) 0 (SeekFile (BACK_PTR_LEFT rTable) 0
                 (SeekFile (MAP rTable) 0 (SeekFile (lMapId rTable) 0
                   (SeekBucket (MARKED_ENTRIES rTable) (ioQueue s)))));
          lBucketLength = bucketCounts s lTable 0 + of_nat P3_EXTRA_L_ENTRIES_TO_LOAD;
          rBucketLength = ptrTableBucketCounts s rTable 0;
          ls = fileData (lMapId rTable) 0 (unat lBucketLength) q0;
          q1 = ReadFile (lMapId rTable) 0 (B_lMap 0) 0 (unat lBucketLength) q0;
          ms = fileData (MARKED_ENTRIES rTable) 0 (bitFieldSize s div 8) q1;
          q2 = ReadFile (MARKED_ENTRIES rTable) 0 B_markedEntries 0 (bitFieldSize s div 8) q1;
          lefts = fileData (BACK_PTR_LEFT rTable) 0 (unat rBucketLength) q2;
          q3 = ReadFile (BACK_PTR_LEFT rTable) 0 (B_left 0) 0 (unat rBucketLength) q2;
          rights = fileData (BACK_PTR_RIGHT rTable) 0 (unat rBucketLength) q3;
          q4 = ReadFile (BACK_PTR_RIGHT rTable) 0 (B_right 0) 0 (unat rBucketLength) q3;
          maps = fileData (MAP rTable) 0 (unat rBucketLength) q4;
          q5 = ReadFile (MAP rTable) 0 (B_rMap 0) 0 (unat rBucketLength) q4
      in (ucast lBucketLength,
          SignalFence 1
            (s\<lparr>ioQueue := q5,
               lMap0 := blit (lMap0 s) 0 (map ucast ls),
               markedEntries := blit (markedEntries s) 0 ms,
               rTablePairs0 := \<lparr>left = blit (left (rTablePairs0 s)) 0 (map ucast lefts),
                                 right = blit (right (rTablePairs0 s)) 0 (map ucast rights)\<rparr>,
               rMap0 := blit (rMap0 s) 0 (map ucast maps),
               rTableOffset := 0\<rparr>)))"

text \<open>
  The background load of the next bucket: the l-table goes to \<open>_lMap[1]\<close> from entry
  \<open>P3_EXTRA_L_ENTRIES_TO_LOAD\<close> on; for the last bucket its length is what is left of the
  l-table.
\<close>

definition loadNextBucket ::
  "TableId \<Rightarrow> nat \<Rightarrow> uint64 \<times> DiskPlotPhase3 \<Rightarrow> uint64 \<times> DiskPlotPhase3" where
  "loadNextBucket rTable bucket st =
     (case st of (lEntriesLoaded, s) \<Rightarrow>
        let lTable = rTable - 1;
            nextBucket = bucket + 1;
            nextBucketIsLastBucket = (nextBucket = BB_DP_BUCKET_COUNT - 1);
            lBucketLength = (if nextBucketIsLastBucket
                             then ucast (entryCounts s lTable - lEntriesLoaded)
                             else bucketCounts s lTable nextBucket);
            rBucketLength = ptrTableBucketCounts s rTable nextBucket;
            q0 = ioQueue s;
            ls = fileData (lMapId rTable) 0 (unat lBucketLength) q0;
            q1 = ReadFile (lMapId rTable) 0 (B_lMap 1) P3_EXTRA_L_ENTRIES_TO_LOAD
                   (unat lBucketLength) q0;
            lefts = fileData (BACK_PTR_LEFT rTable) 0 (unat rBucketLength) q1;
            q2 = ReadFile (BACK_PTR_LEFT rTable) 0 (B_left 1) 0 (unat rBucketLength) q1;
            rights = fileData (BACK_PTR_RIGHT rTable) 0 (unat rBucketLength) q2;
            q3 = ReadFile (BACK_PTR_RIGHT rTable) 0 (B_right 1) 0 (unat rBucketLength) q2;
            maps = fileData (MAP rTable) 0 (unat rBucketLength) q3;
            q4 = ReadFile (MAP rTable) 0 (B_rMap 1) 0 (unat rBucketLength) q3
        in (lEntriesLoaded + ucast lBucketLength,
            SignalFence (nextBucket + 1)
              (s\<lparr>ioQueue := q4,
                 lMap1 := blit (lMap1 s) P3_EXTRA_L_ENTRIES_TO_LOAD (map ucast ls),
                 rTablePairs1 := \<lparr>left = blit (left (rTablePairs1 s)) 0 (map ucast lefts),
                                   right = blit (right (rTablePairs1 s)) 0 (map ucast rights)\<rparr>,
                 rMap1 := blit (rMap1 s) 0 (map ucast maps)\<rparr>)))"

text \<open>
  After a bucket: the \<open>memcpy\<close> of \<open>P3_EXTRA_L_ENTRIES_TO_LOAD\<close> entries of \<open>_lMap[0]\<close>,
  from \<open>bucketCounts[lTable][bucket]\<close> on, to the start of \<open>_lMap[1]\<close>, and the three swaps.
\<close>

definition carryAndSwap :: "TableId \<Rightarrow> nat \<Rightarrow> DiskPlotPhase3 \<Rightarrow> DiskPlotPhase3" where
  "carryAndSwap rTable bucket s =
     (let lTable = rTable - 1;
          s1 = s\<lparr>lMap1 := blit (lMap1 s) 0
                   (slice (lMap0 s) (unat (bucketCounts s lTable bucket)) P3_EXTRA_L_ENTRIES_TO_LOAD)\<rparr>
      in s1\<lparr>lMap0 := lMap1 s1, lMap1 := lMap0 s1,
            rMap0 := rMap1 s1, rMap1 := rMap0 s1,
            rTablePairs0 := rTablePairs1 s1, rTablePairs1 := rTablePairs0 s1\<rparr>)"

definition firstStepBucket ::
  "TableId \<Rightarrow> nat \<Rightarrow> uint64 \<times> DiskPlotPhase3 \<Rightarrow> (uint64 \<times> DiskPlotPhase3) Outcome" where
  "firstStepBucket rTable bucket st =
     (let isCurrentBucketLastBucket = (bucket = BB_DP_BUCKET_COUNT - 1);
          st1 = (if \<not> isCurrentBucketLastBucket then loadNextBucket rTable bucket st else st)
      in case BucketFirstStep rTable bucket (snd st1) of
           WaitsForever i s' \<Rightarrow> WaitsForever i (fst st1, s')
         | Returns s' \<Rightarrow> Returns (fst st1, carryAndSwap rTable bucket s'))"

definition TableFirstStep :: "TableId \<Rightarrow> DiskPlotPhase3 \<Rightarrow> DiskPlotPhase3 Outcome" where
  "TableFirstStep rTable s =
     (case forBuckets (firstStepBucket rTable) [0..<BB_DP_BUCKET_COUNT] (readFirstBucket rTable s) of
        Returns st \<Rightarrow> Returns (snd st)
      | WaitsForever i st \<Rightarrow> WaitsForever i (snd st))"

subsection \<open>Second step\<close>

text \<open>
  \<open>Step2FenceId\<close>: \<open>Start = 0\<close>, \<open>LPLoaded = 1\<close>, \<open>MapLoaded = 2\<close>, \<open>FENCE_COUNT = 3\<close>.
\<close>

definition LPLoaded :: nat where "LPLoaded = 1"
definition MapLoaded :: nat where "MapLoaded = 2"
definition FENCE_COUNT :: nat where "FENCE_COUNT = 3"

text \<open>
  The lambda \<open>LoadBucket\<close> of \<open>TableSecondStep\<close>: two loaned buffers of the bucket's
  length, the reads of the bucket's line points and keys into them, a fence signal after
  each.
\<close>

definition LoadBucket2 ::
  "TableId \<Rightarrow> nat \<Rightarrow> DiskPlotPhase3 \<Rightarrow> (uint64 list \<times> uint32 list) \<times> DiskPlotPhase3" where
  "LoadBucket2 rTable bucket s =
     (let bucketLength = unat (lpBucketCounts s ! bucket);
          fenceIdx = bucket * FENCE_COUNT;
          q0 = ioQueue s;
          lps = fileData (LP rTable) bucket bucketLength q0;
          q1 = ReadFile (LP rTable) bucket B_loan 0 bucketLength q0;
          s1 = SignalFence (LPLoaded + fenceIdx) (s\<lparr>ioQueue := q1\<rparr>);
          keys = fileData (LP_KEY rTable) bucket bucketLength (ioQueue s1);
          q2 = ReadFile (LP_KEY rTable) bucket B_loan 0 bucketLength (ioQueue s1);
          s2 = SignalFence (MapLoaded + fenceIdx) (s1\<lparr>ioQueue := q2\<rparr>)
      in ((blit (GetBuffer bucketLength) 0 lps, blit (GetBuffer bucketLength) 0 (map ucast keys)),
          s2))"

text \<open>
  \<open>WriteLPReverseLookup\<close>: runs the map job on the sorted keys, adds the bucket totals to
  \<open>_lMapBucketCounts\<close> and writes the records to the buckets of the map file (the sizes are
  \<open>uint32\<close> byte counts).
\<close>

definition WriteLPReverseLookup ::
  "TableId \<Rightarrow> uint32 list \<Rightarrow> nat \<Rightarrow> uint32 \<Rightarrow> uint64 \<Rightarrow> DiskPlotPhase3 \<Rightarrow> DiskPlotPhase3" where
  "WriteLPReverseLookup rTable key bucket entryCount entryOffset s =
     (let r = WriteLPMapJob_Run (threadCount s) (unat entryCount) entryOffset key;
          outMap = fst r;
          counts = snd r
      in s\<lparr>lMapBucketCounts := map (\<lambda>i. lMapBucketCounts s ! i + counts ! i) [0..<BB_DP_BUCKET_COUNT],
            ioQueue := WriteBuckets (LP_MAP rTable) outMap
                         (map (\<lambda>c. unat (c * 8) div 8) counts) (ioQueue s)\<rparr>)"

text \<open>
  One pass of the loop of \<open>TableSecondStep\<close>. The loop's own variables are \<open>entryOffset\<close>
  and the array \<open>buffers\<close>.
\<close>

definition secondStepBucket ::
  "TableId \<Rightarrow> nat
     \<Rightarrow> uint64 \<times> (nat \<Rightarrow> uint64 list \<times> uint32 list) \<times> DiskPlotPhase3
     \<Rightarrow> (uint64 \<times> (nat \<Rightarrow> uint64 list \<times> uint32 list) \<times> DiskPlotPhase3) Outcome" where
  "secondStepBucket rTable bucket st =
     (case st of (entryOffset, buffers, s) \<Rightarrow>
        let nextBucket = bucket + 1;
            isLastBucket = (bucket = BB_DPP3_LP_BUCKET_COUNT - 1);
            ld = LoadBucket2 rTable nextBucket s;
            buffers1 = (if \<not> isLastBucket then buffers(nextBucket := fst ld) else buffers);
            s1 = (if \<not> isLastBucket then snd ld else s);
            bucketLength = lpBucketCounts s1 ! bucket;
            fenceIdx = bucket * FENCE_COUNT
        in if readFence s1 < MapLoaded + fenceIdx
           then WaitsForever (MapLoaded + fenceIdx) (entryOffset, buffers1, s1)
           else
             let sorted = SortWithKey (fst (buffers1 bucket)) (snd (buffers1 bucket)) (unat bucketLength);
                 s2 = s1\<lparr>linePoints := blit (linePoints s1) 0 (fst sorted),
                         rPrunedMap := blit (rPrunedMap s1) 0 (snd sorted)\<rparr>;
                 s3 = WriteLPReverseLookup rTable (rPrunedMap s2) bucket bucketLength entryOffset s2
             in Returns (entryOffset + ucast bucketLength, buffers1, s3))"

definition TableSecondStep :: "TableId \<Rightarrow> DiskPlotPhase3 \<Rightarrow> DiskPlotPhase3 Outcome" where
  "TableSecondStep rTable s =
     (let s0 = s\<lparr>readFence := 0,
                 ioQueue := SeekBucket (LP_KEY rTable) (SeekBucket (LP rTable) (ioQueue s))\<rparr>;
          ld = LoadBucket2 rTable 0 s0
      in case forBuckets (secondStepBucket rTable) [0..<BB_DPP3_LP_BUCKET_COUNT]
                (0, (\<lambda>b. ([], []))(0 := fst ld), snd ld) of
           Returns st \<Rightarrow> Returns (snd (snd st))
         | WaitsForever i st \<Rightarrow> WaitsForever i (snd (snd st)))"

subsection \<open>Third step\<close>

text \<open>
  The lambda \<open>LoadBucket\<close> of \<open>TableThirdStep\<close>: it loads bucket \<open>bucketsLoaded\<close> of the map
  file into a loaned buffer, signals fence \<open>bucket + 1\<close>, seeks bucket 0 back to its start
  or deletes the bucket's file, and stores the buffer in \<open>buffers\<close>. The state of the loop
  is \<open>buffers\<close> (\<open>None\<close> is the null pointer of \<open>{ 0 }\<close>), \<open>bucketsLoaded\<close> and the phase.
\<close>

definition LoadBucket3 ::
  "TableId \<Rightarrow> (nat \<Rightarrow> uint64 list option) \<times> nat \<times> DiskPlotPhase3
     \<Rightarrow> (nat \<Rightarrow> uint64 list option) \<times> nat \<times> DiskPlotPhase3" where
  "LoadBucket3 rTable st =
     (case st of (buffers, bucketsLoaded, s) \<Rightarrow>
        let bucket = bucketsLoaded;
            entryCount = unat (lMapBucketCounts s ! bucket);
            q0 = ioQueue s;
            buffer = blit (GetBuffer entryCount) 0 (fileData (LP_MAP rTable) bucket entryCount q0);
            q1 = ReadFile (LP_MAP rTable) bucket B_loan 0 entryCount q0;
            s1 = SignalFence (bucket + 1) (s\<lparr>ioQueue := q1\<rparr>);
            q2 = (if bucket = 0 then SeekFile (LP_MAP rTable) 0 (ioQueue s1)
                  else DeleteFile (LP_MAP rTable) bucket (ioQueue s1))
        in (buffers(bucketsLoaded := Some buffer), bucketsLoaded + 1, s1\<lparr>ioQueue := q2\<rparr>))"

text \<open>
  \<open>lastBucketSize\<close>: the product is formed in \<open>uint32\<close>, the difference in \<open>uint64\<close>, and
  the result is truncated to \<open>uint32\<close>.
\<close>

definition lastBucketSize :: "uint64 \<Rightarrow> uint32" where
  "lastBucketSize tableEntryCount =
     ucast (tableEntryCount - ucast (fixedBucketLength * of_nat (BB_DP_BUCKET_COUNT - 1)))"

definition writeEntryCount :: "uint64 \<Rightarrow> nat \<Rightarrow> uint32" where
  "writeEntryCount tableEntryCount bucket =
     (let nextBucket = bucket + 1;
          isLastBucket = (nextBucket = BB_DP_BUCKET_COUNT)
      in if isLastBucket then lastBucketSize tableEntryCount else fixedBucketLength)"

text \<open>
  One pass of the loop of \<open>TableThirdStep\<close>. The block that would load the next bucket is
  commented out in the source, so the pass reserves the write buffer and waits for fence
  \<open>bucket + 1\<close>. Behind the wait, a null \<open>buffers[bucket]\<close> is an empty buffer: every
  read of it is outside. Where the job leaves its buffers the behaviour of the program is
  undefined; the model lets the pass go on with the write buffer as it was loaned, and
  what is proved below of the unpacked data is proved of jobs that stay inside.
\<close>

definition thirdStepBucket ::
  "TableId \<Rightarrow> uint64 \<Rightarrow> nat \<Rightarrow> (nat \<Rightarrow> uint64 list option) \<times> nat \<times> DiskPlotPhase3
     \<Rightarrow> ((nat \<Rightarrow> uint64 list option) \<times> nat \<times> DiskPlotPhase3) Outcome" where
  "thirdStepBucket rTable tableEntryCount bucket st =
     (case st of (buffers, bucketsLoaded, s) \<Rightarrow>
        let nextBucket = bucket + 1;
            entryCount = lMapBucketCounts s ! bucket;
            writeBuffer = GetBuffer (unat (writeEntryCount tableEntryCount bucket))
        in if readFence s < nextBucket then WaitsForever nextBucket st
           else
             let inMap = (case buffers bucket of Some b \<Rightarrow> b | None \<Rightarrow> []);
                 unpacked = (case LPUnpackMapJob_RunJob (threadCount s) bucket (unat entryCount)
                                   inMap writeBuffer of
                               Some dst \<Rightarrow> dst
                             | None \<Rightarrow> writeBuffer)
             in Returns (buffers, bucketsLoaded,
                         s\<lparr>ioQueue := WriteFile (LP_MAP rTable) 0 (map ucast unpacked) (ioQueue s)\<rparr>))"

definition TableThirdStep :: "TableId \<Rightarrow> DiskPlotPhase3 \<Rightarrow> DiskPlotPhase3 Outcome" where
  "TableThirdStep rTable s =
     (let tableEntryCount = entryCounts s rTable;
          s0 = s\<lparr>readFence := 0, ioQueue := SeekBucket (LP_MAP rTable) (ioQueue s)\<rparr>;
          st0 = LoadBucket3 rTable (\<lambda>b. None, 0, s0)
      in case forBuckets (thirdStepBucket rTable tableEntryCount) [0..<BB_DP_BUCKET_COUNT] st0 of
           Returns st \<Rightarrow> Returns (snd (snd st))
         | WaitsForever i st \<Rightarrow> WaitsForever i (snd (snd st)))"

subsection \<open>Driver\<close>

text \<open>
  The head of \<open>ProcessTable\<close>: the pruned count and the two arrays of bucket counts are
  cleared and the fence is reset to \<open>P3FenceId::Start = 0\<close>.
\<close>

definition resetTable :: "DiskPlotPhase3 \<Rightarrow> DiskPlotPhase3" where
  "resetTable s =
     s\<lparr>prunedEntryCount := 0,
       lpBucketCounts := replicate BB_DPP3_LP_BUCKET_COUNT 0,
       lMapBucketCounts := replicate BB_DP_BUCKET_COUNT 0,
       readFence := 0\<rparr>"

text \<open>
  \<open>ProcessTable\<close>: the reset, the three steps, and then the new entry count of the table.
\<close>

definition ProcessTable :: "TableId \<Rightarrow> DiskPlotPhase3 \<Rightarrow> DiskPlotPhase3 Outcome" where
  "ProcessTable rTable s =
     (let s0 = resetTable s
      in case TableFirstStep rTable s0 of
           WaitsForever i s1 \<Rightarrow> WaitsForever i s1
         | Returns s1 \<Rightarrow>
            (case TableSecondStep rTable s1 of
               WaitsForever i s2 \<Rightarrow> WaitsForever i s2
             | Returns s2 \<Rightarrow>
                (case TableThirdStep rTable s2 of
                   WaitsForever i s3 \<Rightarrow> WaitsForever i s3
                 | Returns s3 \<Rightarrow>
                     Returns (s3\<lparr>entryCounts := (entryCounts s3)(rTable := prunedEntryCount s3)\<rparr>))))"

text \<open>
  \<open>Run\<close>: \<open>for (table = Table2; table < Table7; table++) ProcessTable (table)\<close>. The loop
  is written over the per-table procedure, which is \<open>ProcessTable\<close> in \<open>Run\<close>.
\<close>

function RunLoop :: "(TableId \<Rightarrow> 's \<Rightarrow> 's Outcome) \<Rightarrow> TableId \<Rightarrow> 's \<Rightarrow> 's Outcome" where
  "RunLoop process table s =
     (if table < Table7
      then (case process table s of
              Returns s' \<Rightarrow> RunLoop process (table + 1) s'
            | WaitsForever i s' \<Rightarrow> WaitsForever i s')
      else Returns s)"
  by pat_completeness auto
termination
  by (relation "measure (\<lambda>(process, table, s). Table7 - table)") auto

definition Run :: "DiskPlotPhase3 \<Rightarrow> DiskPlotPhase3 Outcome" where
  "Run s = RunLoop ProcessTable Table2 s"

section \<open>Fixtures\<close>

text \<open>A queue with empty files and a phase over empty tables, on one thread.\<close>

definition emptyQueue :: DiskBufferQueue where
  "emptyQueue = \<lparr>files = (\<lambda>f b. []), positions = (\<lambda>f b. 0), commands = []\<rparr>"

definition emptyPhase :: DiskPlotPhase3 where
  "emptyPhase =
     \<lparr>entryCounts = (\<lambda>t. 0), bucketCounts = (\<lambda>t b. 0), ptrTableBucketCounts = (\<lambda>t b. 0),
      threadCount = 1, bitFieldSize = 0, ioQueue = emptyQueue, markedEntries = [],
      lMap0 = [], lMap1 = [], rMap0 = [], rMap1 = [],
      rTablePairs0 = \<lparr>left = [], right = []\<rparr>, rTablePairs1 = \<lparr>left = [], right = []\<rparr>,
      rPrunedMap = [], linePoints = [], readFence = 0, prunedEntryCount = 0,
      lpBucketCounts = replicate BB_DPP3_LP_BUCKET_COUNT 0,
      lMapBucketCounts = replicate BB_DP_BUCKET_COUNT 0, rTableOffset = 0\<rparr>"

text \<open>The reads of one file among the commands.\<close>

definition isReadOf :: "FileId \<Rightarrow> Command \<Rightarrow> bool" where
  "isReadOf f c = (case c of ReadFileCmd g b dst off n \<Rightarrow> g = f | _ \<Rightarrow> False)"

section \<open>Notions used in the statements\<close>

text \<open>Position \<open>i\<close> of the r-bucket is marked: the bit of its original index is set.\<close>

definition marked :: "ConvertToLPJob \<Rightarrow> nat \<Rightarrow> bool" where
  "marked job i = BitField_Get (jobMarkedEntries job) (unat (jobRMap job ! i))"

text \<open>
  The job that \<open>PointersToLinePoints\<close> sets up in state \<open>s\<close> for a bucket of \<open>n\<close> entries,
  and the number of marked positions of that bucket.
\<close>

definition stepJob :: "DiskPlotPhase3 \<Rightarrow> uint32 \<Rightarrow> ConvertToLPJob" where
  "stepJob s n = \<lparr>bucketEntryCount = n, jobMarkedEntries = markedEntries s,
                 jobLMap = lMap0 s, jobRMap = rMap0 s, jobPairs = rTablePairs0 s\<rparr>"

definition prunedInBucket :: "DiskPlotPhase3 \<Rightarrow> uint32 \<Rightarrow> nat" where
  "prunedInBucket s n = length (filter (marked (stepJob s n)) [0..<unat n])"

text \<open>The entries of the r-table in the buckets before \<open>b\<close>.\<close>

definition rEntriesBefore :: "DiskPlotPhase3 \<Rightarrow> TableId \<Rightarrow> nat \<Rightarrow> nat" where
  "rEntriesBefore s rTable b = (\<Sum>j<b. unat (ptrTableBucketCounts s rTable j))"

text \<open>
  What holds when the loop of the first step reaches bucket \<open>b\<close>, started in state \<open>s\<close>:
  the bucket's fence is reached, the context is as in \<open>s\<close>, and the line point bucket
  counts add up to the pruned count, which is at most the number of entries seen.
\<close>

definition lpCountsInv :: "DiskPlotPhase3 \<Rightarrow> TableId \<Rightarrow> nat \<Rightarrow> uint64 \<times> DiskPlotPhase3 \<Rightarrow> bool" where
  "lpCountsInv s rTable b st =
     (readFence (snd st) = (if b < BB_DP_BUCKET_COUNT then b + 1 else BB_DP_BUCKET_COUNT) \<and>
      threadCount (snd st) = threadCount s \<and>
      ptrTableBucketCounts (snd st) = ptrTableBucketCounts s \<and>
      entryCounts (snd st) = entryCounts s \<and>
      lMapBucketCounts (snd st) = lMapBucketCounts s \<and>
      length (lpBucketCounts (snd st)) = BB_DPP3_LP_BUCKET_COUNT \<and>
      sum_list (map unat (lpBucketCounts (snd st))) = unat (prunedEntryCount (snd st)) \<and>
      unat (prunedEntryCount (snd st)) \<le> rEntriesBefore s rTable b)"

text \<open>The line points in the buckets before \<open>b\<close>, as the first step counted them.\<close>

definition lpEntriesBefore :: "DiskPlotPhase3 \<Rightarrow> nat \<Rightarrow> nat" where
  "lpEntriesBefore s b = (\<Sum>j<b. unat (lpBucketCounts s ! j))"

text \<open>
  What holds when the loop of the second step reaches line point bucket \<open>b\<close>, started in
  state \<open>s\<close>: the bucket's fence is reached, the counts of the first step are as in \<open>s\<close>,
  and both the map bucket counts and \<open>entryOffset\<close> add up to the line points before \<open>b\<close>.
\<close>

definition lMapCountsInv ::
  "DiskPlotPhase3 \<Rightarrow> nat \<Rightarrow> uint64 \<times> (nat \<Rightarrow> uint64 list \<times> uint32 list) \<times> DiskPlotPhase3 \<Rightarrow> bool" where
  "lMapCountsInv s b st =
     (case st of (entryOffset, buffers, s') \<Rightarrow>
        readFence s' = MapLoaded + (min b (BB_DPP3_LP_BUCKET_COUNT - 1)) * FENCE_COUNT \<and>
        threadCount s' = threadCount s \<and>
        entryCounts s' = entryCounts s \<and>
        prunedEntryCount s' = prunedEntryCount s \<and>
        lpBucketCounts s' = lpBucketCounts s \<and>
        length (lMapBucketCounts s') = BB_DP_BUCKET_COUNT \<and>
        sum_list (map unat (lMapBucketCounts s')) = lpEntriesBefore s b \<and>
        unat entryOffset = lpEntriesBefore s b)"

text \<open>
  A small table 2 over four \<open>x\<close> values, on two threads: three entries in bucket 0, with
  the original indices 2, 0 and 1, of which the entries 0 and 2 are marked.
\<close>

definition smallQueue :: DiskBufferQueue where
  "smallQueue =
     \<lparr>files = (\<lambda>f b. if b \<noteq> 0 then []
                      else if f = X then [10, 20, 30, 40]
                      else if f = MARKED_ENTRIES Table2 then [5]
                      else if f = MAP Table2 then [2, 0, 1]
                      else if f = BACK_PTR_LEFT Table2 then [0, 1, 2]
                      else if f = BACK_PTR_RIGHT Table2 then [1, 1, 1]
                      else []),
      positions = (\<lambda>f b. 0), commands = []\<rparr>"

definition smallPhase :: DiskPlotPhase3 where
  "smallPhase =
     \<lparr>entryCounts = (\<lambda>t. if t = Table1 then 4 else if t = Table2 then 3 else 0),
      bucketCounts = (\<lambda>t b. if t = Table1 \<and> b = 0 then 4 else 0),
      ptrTableBucketCounts = (\<lambda>t b. if t = Table2 \<and> b = 0 then 3 else 0),
      threadCount = 2, bitFieldSize = 8, ioQueue = smallQueue, markedEntries = [0],
      lMap0 = replicate 1028 0, lMap1 = replicate 1028 0,
      rMap0 = replicate 3 0, rMap1 = replicate 3 0,
      rTablePairs0 = \<lparr>left = replicate 3 0, right = replicate 3 0\<rparr>,
      rTablePairs1 = \<lparr>left = replicate 3 0, right = replicate 3 0\<rparr>,
      rPrunedMap = replicate 1027 0, linePoints = replicate 1027 0, readFence = 0,
      prunedEntryCount = 0,
      lpBucketCounts = replicate BB_DPP3_LP_BUCKET_COUNT 0,
      lMapBucketCounts = replicate BB_DP_BUCKET_COUNT 0, rTableOffset = 0\<rparr>"

text \<open>
  The r-map of a table as it lies on disk, narrowed to \<open>uint32\<close>: the original index of
  every r-entry, in the order of the buckets. And the marked bitmap of the table on disk.
\<close>

definition rKeys :: "DiskPlotPhase3 \<Rightarrow> TableId \<Rightarrow> uint32 list" where
  "rKeys s rTable = map ucast (files (ioQueue s) (MAP rTable) 0)"

definition markedFile :: "DiskPlotPhase3 \<Rightarrow> TableId \<Rightarrow> uint64 list" where
  "markedFile s rTable = files (ioQueue s) (MARKED_ENTRIES rTable) 0"

text \<open>
  What holds when the loop of the first step reaches bucket \<open>b\<close>, started in state \<open>s\<close>,
  about the r-map: the current r-map buffer holds the bucket's part of the file, the next
  read continues behind it, and the pruned count is the number of marked keys among the
  entries of the buckets before \<open>b\<close>.
\<close>

definition prunedInv :: "DiskPlotPhase3 \<Rightarrow> TableId \<Rightarrow> nat \<Rightarrow> uint64 \<times> DiskPlotPhase3 \<Rightarrow> bool" where
  "prunedInv s rTable b st =
     (readFence (snd st) = (if b < BB_DP_BUCKET_COUNT then b + 1 else BB_DP_BUCKET_COUNT) \<and>
      threadCount (snd st) = threadCount s \<and>
      ptrTableBucketCounts (snd st) = ptrTableBucketCounts s \<and>
      markedEntries (snd st) = markedEntries (snd (readFirstBucket rTable s)) \<and>
      files (ioQueue (snd st)) (MAP rTable) 0 = files (ioQueue s) (MAP rTable) 0 \<and>
      positions (ioQueue (snd st)) (MAP rTable) 0
        = rEntriesBefore s rTable (min (b + 1) BB_DP_BUCKET_COUNT) \<and>
      (\<forall>j<BB_DP_BUCKET_COUNT.
         unat (ptrTableBucketCounts s rTable j) \<le> length (rMap0 (snd st)) \<and>
         unat (ptrTableBucketCounts s rTable j) \<le> length (rMap1 (snd st))) \<and>
      (b < BB_DP_BUCKET_COUNT \<longrightarrow>
         take (unat (ptrTableBucketCounts s rTable b)) (rMap0 (snd st))
           = slice (rKeys s rTable) (rEntriesBefore s rTable b) (unat (ptrTableBucketCounts s rTable b))) \<and>
      unat (prunedEntryCount (snd st))
        = length (filter (\<lambda>k. BitField_Get (markedEntries (snd (readFirstBucket rTable s))) (unat k))
                    (take (rEntriesBefore s rTable b) (rKeys s rTable))))"

text \<open>
  Where the reads of the l-table file deposit their data: the destinations (buffer and
  offset in entries) of the reads of \<open>lMapId\<close> among the commands, in the order of issue.
\<close>

definition readDest :: "Command \<Rightarrow> Buffer \<times> nat" where
  "readDest c = (case c of ReadFileCmd f b dst off n \<Rightarrow> (dst, off) | _ \<Rightarrow> (B_loan, 0))"

definition lReadDests :: "TableId \<Rightarrow> DiskPlotPhase3 \<Rightarrow> (Buffer \<times> nat) list" where
  "lReadDests rTable s = map readDest (filter (isReadOf (lMapId rTable)) (commands (ioQueue s)))"

text \<open>The l-values that the background load of bucket \<open>b + 1\<close> delivers.\<close>

definition nextLValues :: "TableId \<Rightarrow> nat \<Rightarrow> uint64 \<Rightarrow> DiskPlotPhase3 \<Rightarrow> uint32 list" where
  "nextLValues rTable b lEntriesLoaded s =
     (let lBucketLength = (if b + 1 = BB_DP_BUCKET_COUNT - 1
                           then ucast (entryCounts s (rTable - 1) - lEntriesLoaded)
                           else bucketCounts s (rTable - 1) (b + 1))
      in map ucast (fileData (lMapId rTable) 0 (unat lBucketLength) (ioQueue s)))"

text \<open>
  What holds of the fence and of the l-table reads when the loop of the first step
  reaches bucket \<open>b\<close>, started in state \<open>s\<close>.
\<close>

definition lReadInv :: "DiskPlotPhase3 \<Rightarrow> TableId \<Rightarrow> nat \<Rightarrow> uint64 \<times> DiskPlotPhase3 \<Rightarrow> bool" where
  "lReadInv s rTable b st =
     (readFence (snd st) = (if b < BB_DP_BUCKET_COUNT then b + 1 else BB_DP_BUCKET_COUNT) \<and>
      lReadDests rTable (snd st)
        = lReadDests rTable s @ (B_lMap 0, 0)
            # replicate (min b (BB_DP_BUCKET_COUNT - 1)) (B_lMap 1, P3_EXTRA_L_ENTRIES_TO_LOAD))"

text \<open>
  What holds of the fence and of the entry counts when the loops of the first and of the
  second step reach bucket \<open>b\<close>, started in state \<open>s\<close>.
\<close>

definition firstStepFrame :: "DiskPlotPhase3 \<Rightarrow> nat \<Rightarrow> uint64 \<times> DiskPlotPhase3 \<Rightarrow> bool" where
  "firstStepFrame s b st =
     (readFence (snd st) = (if b < BB_DP_BUCKET_COUNT then b + 1 else BB_DP_BUCKET_COUNT) \<and>
      entryCounts (snd st) = entryCounts s)"

definition secondStepFrame ::
  "DiskPlotPhase3 \<Rightarrow> nat \<Rightarrow> uint64 \<times> (nat \<Rightarrow> uint64 list \<times> uint32 list) \<times> DiskPlotPhase3 \<Rightarrow> bool" where
  "secondStepFrame s b st =
     (readFence (snd (snd st)) = MapLoaded + (min b (BB_DPP3_LP_BUCKET_COUNT - 1)) * FENCE_COUNT \<and>
      entryCounts (snd (snd st)) = entryCounts s)"

text \<open>
  The job of bucket 0 of the small table 2, as the first step sets it up after the read
  of the bucket: three entries with the original indices 2, 0 and 1, of which 0 and 2 are
  marked; the pairs resolve to the l-values \<open>(10, 20)\<close>, \<open>(20, 30)\<close> and \<open>(30, 40)\<close>. The
  two staging buffers hold what was there before: zeros in the line point buffer, sevens
  in the pruned map.
\<close>

definition smallJob :: ConvertToLPJob where
  "smallJob = \<lparr>bucketEntryCount = 3, jobMarkedEntries = [5], jobLMap = [10, 20, 30, 40],
               jobRMap = [2, 0, 1],
               jobPairs = \<lparr>left = [0, 1, 2], right = [1, 1, 1]\<rparr>\<rparr>"

definition staleBuffers :: "uint64 list \<times> uint32 list" where
  "staleBuffers = ([0, 0, 0, 0], [7, 7, 7, 7])"

text \<open>
  The loop of \<open>TableSecondStep\<close> run up to line point bucket \<open>b\<close>: the loop's variables
  and the state on reaching the pass of bucket \<open>b\<close>.
\<close>

definition secondStepAt ::
  "TableId \<Rightarrow> DiskPlotPhase3 \<Rightarrow> nat
     \<Rightarrow> (uint64 \<times> (nat \<Rightarrow> uint64 list \<times> uint32 list) \<times> DiskPlotPhase3) Outcome" where
  "secondStepAt rTable s b =
     (let s0 = s\<lparr>readFence := 0,
                 ioQueue := SeekBucket (LP_KEY rTable) (SeekBucket (LP rTable) (ioQueue s))\<rparr>;
          ld = LoadBucket2 rTable 0 s0
      in forBuckets (secondStepBucket rTable) [0..<b]
           (0, (\<lambda>b. ([], []))(0 := fst ld), snd ld))"

text \<open>
  What holds when the loop of the second step reaches line point bucket \<open>b\<close>, started in
  state \<open>s\<close>: the bucket's fence is reached, the thread count, the counts of the first
  step and the length of the key buffer are as in \<open>s\<close>, and \<open>entryOffset\<close> is the number of
  line points in the buckets before \<open>b\<close>.
\<close>

definition entryOffsetInv ::
  "DiskPlotPhase3 \<Rightarrow> nat \<Rightarrow> uint64 \<times> (nat \<Rightarrow> uint64 list \<times> uint32 list) \<times> DiskPlotPhase3 \<Rightarrow> bool" where
  "entryOffsetInv s b st =
     (case st of (entryOffset, buffers, s') \<Rightarrow>
        readFence s' = MapLoaded + (min b (BB_DPP3_LP_BUCKET_COUNT - 1)) * FENCE_COUNT \<and>
        threadCount s' = threadCount s \<and>
        lpBucketCounts s' = lpBucketCounts s \<and>
        length (rPrunedMap s') = length (rPrunedMap s) \<and>
        entryOffset = of_nat (lpEntriesBefore s b))"

text \<open>
  A phase on one thread after a first step that left two line points in bucket 0 and one
  in bucket 1, with their keys.
\<close>

definition sortedQueue :: DiskBufferQueue where
  "sortedQueue =
     \<lparr>files = (\<lambda>f b. if f = LP Table2 \<and> b = 0 then [455, 200]
                      else if f = LP_KEY Table2 \<and> b = 0 then [0, 2]
                      else if f = LP Table2 \<and> b = 1 then [72057594037927936]
                      else if f = LP_KEY Table2 \<and> b = 1 then [1]
                      else []),
      positions = (\<lambda>f b. 0),
      commands = []\<rparr>"

definition sortedPhase :: DiskPlotPhase3 where
  "sortedPhase =
     emptyPhase\<lparr>ioQueue := sortedQueue,
                rPrunedMap := [0, 0, 0, 0],
                linePoints := [0, 0, 0, 0],
                prunedEntryCount := 3,
                lpBucketCounts := [2, 1] @ replicate 254 0\<rparr>"

text \<open>
  A phase on one thread after a second step that left one record in each of the
  reverse-map buckets 0 and 1 of table 2: the entry with the original index 3 at the
  sorted position 5, and the entry with the original index \<open>2 ^ 26 + 4\<close> at the sorted
  position 9.
\<close>

definition unpackQueue :: DiskBufferQueue where
  "unpackQueue =
     \<lparr>files = (\<lambda>f b. if f = LP_MAP Table2 \<and> b = 0 then [21474836483]
                      else if f = LP_MAP Table2 \<and> b = 1 then [38721814532]
                      else []),
      positions = (\<lambda>f b. if f = LP_MAP Table2 \<and> b < 2 then 1 else 0),
      commands = []\<rparr>"

definition unpackPhase :: DiskPlotPhase3 where
  "unpackPhase =
     emptyPhase\<lparr>entryCounts := (\<lambda>t. 4294967000),
                ioQueue := unpackQueue,
                prunedEntryCount := 2,
                lMapBucketCounts := [1, 1] @ replicate 62 0\<rparr>"

section \<open>Properties\<close>

subsection \<open>StackAllocator\<close>

lemma div_shift: "0 < (b::nat) \<Longrightarrow> r < b \<Longrightarrow> (r + c * b) div b = c"
  using div_mult_self1[of b r c] by simp

lemma round_up_alt:
  assumes "0 < b"
  shows "round_up n b = n + (b - n mod b) mod b"
proof (cases "n mod b = 0")
  case True
  then have "b dvd n" by (simp add: mod_eq_0_iff_dvd)
  then obtain q where q: "n = q * b" by (auto simp: dvd_def mult.commute)
  have "q * b + b - 1 = (b - 1) + q * b" using assms by simp
  then have "(q * b + b - 1) div b = q"
    using div_shift[of b "b - 1" q] assms by simp
  then show ?thesis using True q by (simp add: round_up_def)
next
  case False
  define r where "r = n mod b"
  define q where "q = n div b"
  have n: "n = q * b + r" by (simp add: q_def r_def)
  have r: "0 < r" "r < b" using False assms by (simp_all add: r_def)
  have "n + b - 1 = (r - 1) + (q + 1) * b" using n r by (simp add: algebra_simps)
  then have "(n + b - 1) div b = q + 1"
    using div_shift[of b "r - 1" "q + 1"] r by simp
  then have "round_up n b = (q + 1) * b" by (simp add: round_up_def)
  moreover have "(b - r) mod b = b - r" using r by simp
  moreover have "n mod b = r" by (simp add: r_def)
  ultimately show ?thesis using n r by (simp add: algebra_simps)
qed

lemma round_up_ge: "0 < b \<Longrightarrow> n \<le> round_up n b"
  by (simp add: round_up_alt)

lemma unat_RoundUp:
  assumes b: "0 < boundary" and fit: "round_up (unat v) (unat boundary) < 2 ^ 64"
  shows "unat (RoundUpToNextBoundaryT v boundary) = round_up (unat v) (unat boundary)"
proof -
  have b': "0 < unat boundary" using b by (simp add: word_less_nat_alt)
  have m: "unat (v mod boundary) = unat v mod unat boundary" by (simp add: unat_mod)
  have lt: "unat v mod unat boundary < unat boundary" using b' by simp
  have le: "v mod boundary \<le> boundary"
    by (simp add: word_le_nat_alt m less_imp_le[OF lt])
  have s: "unat (boundary - v mod boundary) = unat boundary - unat v mod unat boundary"
    using le by (simp add: unat_sub m)
  have t: "unat ((boundary - v mod boundary) mod boundary)
             = (unat boundary - unat v mod unat boundary) mod unat boundary"
    by (simp add: unat_mod s)
  have "unat v + (unat boundary - unat v mod unat boundary) mod unat boundary < 2 ^ 64"
    using fit round_up_alt[OF b', of "unat v"] by simp
  then have "unat (v + (boundary - v mod boundary) mod boundary)
               = unat v + (unat boundary - unat v mod unat boundary) mod unat boundary"
    using t by (simp add: unat_add_lem[THEN iffD1])
  then show ?thesis
    by (simp add: RoundUpToNextBoundaryT_def round_up_alt[OF b'])
qed

lemma Alloc_step:
  assumes "0 < al" "round_up (unat (sa_size a)) (unat al) + unat sz \<le> unat (sa_capacity a)"
  shows "unat (fst (Alloc a sz al)) = round_up (unat (sa_size a)) (unat al)"
    and "unat (sa_size (snd (Alloc a sz al))) = round_up (unat (sa_size a)) (unat al) + unat sz"
    and "sa_capacity (snd (Alloc a sz al)) = sa_capacity a"
proof -
  have cap: "unat (sa_capacity a) < 2 ^ 64" using unsigned_less[of "sa_capacity a"] by simp
  have fit: "round_up (unat (sa_size a)) (unat al) < 2 ^ 64" using assms(2) cap by simp
  show p: "unat (fst (Alloc a sz al)) = round_up (unat (sa_size a)) (unat al)"
    using unat_RoundUp[OF assms(1) fit] by (simp add: Alloc_def Let_def)
  have "unat (RoundUpToNextBoundaryT (sa_size a) al) + unat sz < 2 ^ 64"
    using unat_RoundUp[OF assms(1) fit] assms(2) cap by simp
  then have "unat (RoundUpToNextBoundaryT (sa_size a) al + sz)
      = unat (RoundUpToNextBoundaryT (sa_size a) al) + unat sz"
    by (simp add: unat_add_lem[THEN iffD1])
  then show "unat (sa_size (snd (Alloc a sz al))) = round_up (unat (sa_size a)) (unat al) + unat sz"
    using unat_RoundUp[OF assms(1) fit] by (simp add: Alloc_def Let_def)
  show "sa_capacity (snd (Alloc a sz al)) = sa_capacity a"
    by (simp add: Alloc_def Let_def)
qed

lemma alloc_calls_Cons:
  "alloc_calls a ((sz, al) # rs) =
     (fst (Alloc a sz al), sz, sa_size (snd (Alloc a sz al))) # alloc_calls (snd (Alloc a sz al)) rs"
  by (simp add: Let_def split: prod.splits)

lemma length_alloc_calls [simp]: "length (alloc_calls a reqs) = length reqs"
  by (induction reqs arbitrary: a) (auto simp: Let_def split: prod.splits)

declare alloc_calls.simps(2) [simp del]

lemma alloc_calls_lower:
  "fits a reqs \<Longrightarrow> (p, sz, s) \<in> set (alloc_calls a reqs) \<Longrightarrow> unat (sa_size a) \<le> unat p"
proof (induction reqs arbitrary: a)
  case Nil
  then show ?case by simp
next
  case (Cons r rs)
  obtain sz0 al0 where r: "r = (sz0, al0)" by (cases r)
  let ?a' = "snd (Alloc a sz0 al0)"
  from Cons.prems(1) r have pre: "0 < sz0" "0 < al0"
    "round_up (unat (sa_size a)) (unat al0) + unat sz0 \<le> unat (sa_capacity a)" "fits ?a' rs"
    by simp_all
  have al0: "0 < unat al0" using pre(2) by (simp add: word_less_nat_alt)
  note st = Alloc_step[OF pre(2) pre(3)]
  from Cons.prems(2) r consider "p = fst (Alloc a sz0 al0)" | "(p, sz, s) \<in> set (alloc_calls ?a' rs)"
    by (auto simp: alloc_calls_Cons)
  then show ?case
  proof cases
    case 1
    then show ?thesis using st(1) round_up_ge[OF al0, of "unat (sa_size a)"] by simp
  next
    case 2
    from Cons.IH[OF pre(4) 2] have "unat (sa_size ?a') \<le> unat p" .
    then show ?thesis using st(2) round_up_ge[OF al0, of "unat (sa_size a)"] by simp
  qed
qed

lemma alloc_calls_props:
  "fits a reqs \<Longrightarrow> i < length reqs \<Longrightarrow>
     (case alloc_calls a reqs ! i of (p, sz, s) \<Rightarrow>
        p = RoundUpToNextBoundaryT (sizes_before a reqs ! i) (snd (reqs ! i)) \<and>
        unat p = round_up (unat (sizes_before a reqs ! i)) (unat (snd (reqs ! i))) \<and>
        sz = fst (reqs ! i) \<and>
        unat s = unat p + unat sz \<and>
        unat (sizes_before a reqs ! i) < unat s)"
proof (induction reqs arbitrary: a i)
  case Nil
  then show ?case by simp
next
  case (Cons r rs)
  obtain sz0 al0 where r: "r = (sz0, al0)" by (cases r)
  let ?a' = "snd (Alloc a sz0 al0)"
  from Cons.prems(1) r have pre: "0 < sz0" "0 < al0"
    "round_up (unat (sa_size a)) (unat al0) + unat sz0 \<le> unat (sa_capacity a)" "fits ?a' rs"
    by simp_all
  have al0: "0 < unat al0" using pre(2) by (simp add: word_less_nat_alt)
  have sz0: "0 < unat sz0" using pre(1) by (simp add: word_less_nat_alt)
  note st = Alloc_step[OF pre(2) pre(3)]
  show ?case
  proof (cases i)
    case 0
    have "fst (Alloc a sz0 al0) = RoundUpToNextBoundaryT (sa_size a) al0"
      by (simp add: Alloc_def Let_def)
    then show ?thesis
      using 0 r st sz0 round_up_ge[OF al0, of "unat (sa_size a)"]
      by (simp add: sizes_before_def alloc_calls_Cons)
  next
    case (Suc k)
    then have k: "k < length rs" using Cons.prems(2) by simp
    have sb: "sizes_before a (r # rs) ! i = sizes_before ?a' rs ! k"
      using Suc r k by (simp add: sizes_before_def alloc_calls_Cons)
    show ?thesis
      using Cons.IH[OF pre(4) k] Suc r sb
      by (simp add: alloc_calls_Cons)
  qed
qed

lemma alloc_calls_ordered:
  "fits a reqs \<Longrightarrow> i < j \<Longrightarrow> j < length reqs \<Longrightarrow>
     unat (fst (alloc_calls a reqs ! i)) + unat (fst (snd (alloc_calls a reqs ! i)))
       \<le> unat (fst (alloc_calls a reqs ! j))"
proof (induction reqs arbitrary: a i j)
  case Nil
  then show ?case by simp
next
  case (Cons r rs)
  obtain sz0 al0 where r: "r = (sz0, al0)" by (cases r)
  let ?a' = "snd (Alloc a sz0 al0)"
  from Cons.prems(1) r have pre: "0 < sz0" "0 < al0"
    "round_up (unat (sa_size a)) (unat al0) + unat sz0 \<le> unat (sa_capacity a)" "fits ?a' rs"
    by simp_all
  note st = Alloc_step[OF pre(2) pre(3)]
  obtain k where j: "j = Suc k" using Cons.prems(2) by (cases j) auto
  have k: "k < length rs" using Cons.prems(3) j by simp
  show ?case
  proof (cases i)
    case 0
    obtain p sz s where e: "alloc_calls ?a' rs ! k = (p, sz, s)" by (cases "alloc_calls ?a' rs ! k")
    then have "(p, sz, s) \<in> set (alloc_calls ?a' rs)" using k by (metis length_alloc_calls nth_mem)
    from alloc_calls_lower[OF pre(4) this] have "unat (sa_size ?a') \<le> unat p" .
    then show ?thesis using 0 j r e st by (simp add: alloc_calls_Cons)
  next
    case (Suc i')
    then have "i' < k" using Cons.prems(2) j by simp
    from Cons.IH[OF pre(4) this k] show ?thesis using Suc j r by (simp add: alloc_calls_Cons)
  qed
qed

text \<open>
  Claim C9. For a sequence of \<open>Alloc (size, alignment)\<close> calls with positive sizes and
  alignments that fit in the capacity: call \<open>i\<close> returns the offset
  \<open>RoundUpToNextBoundaryT\<close> of the current \<open>_size\<close>, which is the current size rounded up
  to the alignment; \<open>_size\<close> grows strictly with the call; and the regions
  \<open>[offset, offset + size)\<close> of two different calls do not meet.
\<close>

theorem StackAllocator_Alloc_regions:
  assumes "fits a reqs"
  shows "(\<forall>i < length reqs.
            case alloc_calls a reqs ! i of (p, sz, s) \<Rightarrow>
              p = RoundUpToNextBoundaryT (sizes_before a reqs ! i) (snd (reqs ! i)) \<and>
              unat p = round_up (unat (sizes_before a reqs ! i)) (unat (snd (reqs ! i))) \<and>
              sz = fst (reqs ! i) \<and>
              unat (sizes_before a reqs ! i) < unat s) \<and>
         (\<forall>i j. i < j \<and> j < length reqs \<longrightarrow>
            (case (alloc_calls a reqs ! i, alloc_calls a reqs ! j) of
               ((p, sz, s), (q, sz', s')) \<Rightarrow>
                 {unat p ..< unat p + unat sz} \<inter> {unat q ..< unat q + unat sz'} = {}))"
proof (intro conjI allI impI)
  fix i assume "i < length reqs"
  from alloc_calls_props[OF assms this]
  show "case alloc_calls a reqs ! i of (p, sz, s) \<Rightarrow>
              p = RoundUpToNextBoundaryT (sizes_before a reqs ! i) (snd (reqs ! i)) \<and>
              unat p = round_up (unat (sizes_before a reqs ! i)) (unat (snd (reqs ! i))) \<and>
              sz = fst (reqs ! i) \<and>
              unat (sizes_before a reqs ! i) < unat s"
    by (auto split: prod.splits)
next
  fix i j assume "i < j \<and> j < length reqs"
  then have ij: "i < j" "j < length reqs" by simp_all
  from alloc_calls_ordered[OF assms ij]
  show "case (alloc_calls a reqs ! i, alloc_calls a reqs ! j) of
               ((p, sz, s), (q, sz', s')) \<Rightarrow>
                 {unat p ..< unat p + unat sz} \<inter> {unat q ..< unat q + unat sz'} = {}"
    by (auto split: prod.splits)
qed

text \<open>The theorem at a capacity of 64 bytes and two requests.\<close>

theorem StackAllocator_Alloc_regions_witness:
  "fits \<lparr>sa_capacity = 64, sa_size = 0\<rparr> [(10, 8), (4, 16)] \<and>
   alloc_calls \<lparr>sa_capacity = 64, sa_size = 0\<rparr> [(10, 8), (4, 16)] = [(0, 10, 10), (16, 4, 20)] \<and>
   (case (alloc_calls \<lparr>sa_capacity = 64, sa_size = 0\<rparr> [(10, 8), (4, 16)] ! 0,
          alloc_calls \<lparr>sa_capacity = 64, sa_size = 0\<rparr> [(10, 8), (4, 16)] ! 1) of
      ((p, sz, s), (q, sz', s')) \<Rightarrow>
        {unat p ..< unat p + unat sz} \<inter> {unat q ..< unat q + unat sz'} = {})"
proof -
  have f: "fits \<lparr>sa_capacity = 64, sa_size = 0\<rparr> [(10, 8), (4, 16)]"
    by (simp add: Alloc_def RoundUpToNextBoundaryT_def round_up_def)
  have e: "alloc_calls \<lparr>sa_capacity = 64, sa_size = 0\<rparr> [(10, 8), (4, 16)] = [(0, 10, 10), (16, 4, 20)]"
    by (simp add: alloc_calls_Cons Alloc_def RoundUpToNextBoundaryT_def)
  from StackAllocator_Alloc_regions[OF f]
  have "case (alloc_calls \<lparr>sa_capacity = 64, sa_size = 0\<rparr> [(10, 8), (4, 16)] ! 0,
          alloc_calls \<lparr>sa_capacity = 64, sa_size = 0\<rparr> [(10, 8), (4, 16)] ! 1) of
      ((p, sz, s), (q, sz', s')) \<Rightarrow>
        {unat p ..< unat p + unat sz} \<inter> {unat q ..< unat q + unat sz'} = {}"
    by simp
  with f e show ?thesis by (intro conjI)
qed

subsection \<open>Driver\<close>

text \<open>
  Claim C1. The claim asks for the per-table iteration on every table from 2 to 7. The
  loop of \<open>Run\<close> stops at \<open>table < Table7\<close>: run over a procedure that only notes the
  table it is called with, it notes the tables 2 to 6, and table 7 is not among them.
\<close>

theorem Run_stops_before_Table7:
  "RunLoop (\<lambda>table visited. Returns (visited @ [table])) Table2 []
     = Returns [Table2, Table3, Table4, Table5, Table6]
   \<and> Table7 \<notin> set [Table2, Table3, Table4, Table5, Table6]"
  by (simp add: Table2_def Table3_def Table4_def Table5_def Table6_def Table7_def)

subsection \<open>Third step: the fence\<close>

lemma BB_DP_BUCKET_COUNT_val: "BB_DP_BUCKET_COUNT = 64"
  by (simp add: BB_DP_BUCKET_COUNT_def kExtraBits_def)

lemma upt_64: "[0..<64] = 0 # 1 # [2..<64]"
  by (simp add: upt_rec)

text \<open>
  Claim C6. The claim asks for a read of every reverse-map bucket and for every wait to
  return. On every table and from every state, the third step issues the read of bucket 0
  only (the reads of the map file among the commands grow by this one read) and then
  blocks for ever in \<open>Wait (2)\<close>, the wait of bucket 1: fence 2 is never signalled.
\<close>

theorem TableThirdStep_reads_bucket_0_only:
  "\<exists>s'. TableThirdStep rTable s = WaitsForever 2 s' \<and>
     filter (isReadOf (LP_MAP rTable)) (commands (ioQueue s'))
       = filter (isReadOf (LP_MAP rTable)) (commands (ioQueue s))
         @ [ReadFileCmd (LP_MAP rTable) 0 B_loan 0 (unat (lMapBucketCounts s ! 0))]"
  by (simp add: TableThirdStep_def BB_DP_BUCKET_COUNT_val upt_64 thirdStepBucket_def
      LoadBucket3_def Let_def SignalFence_def SignalFenceQ_def ReadFile_def SeekFile_def
      SeekBucket_def WriteFile_def isReadOf_def)

subsection \<open>Jobs: the split of a bucket over the threads\<close>

lemma JobEntries_inner: "j + 1 < T \<Longrightarrow> JobEntries T n j = n div T"
  by (simp add: JobEntries_def)

lemma job_ranges_prefix:
  "m < T \<Longrightarrow>
     concat (map (\<lambda>j. [JobOffset T n j..<JobOffset T n j + JobEntries T n j]) [0..<m])
       = [0..<(n div T) * m]"
proof (induction m)
  case 0
  then show ?case by simp
next
  case (Suc m)
  then have "m + 1 < T" by simp
  then have e: "JobEntries T n m = n div T" by (rule JobEntries_inner)
  have "[0..<(n div T) * m] @ [(n div T) * m..<(n div T) * m + n div T] = [0..<(n div T) * Suc m]"
    by (metis le_add1 mult_Suc_right upt_add_eq_append zero_le add.commute)
  then show ?case using Suc e by (simp add: JobOffset_def)
qed

lemma job_ranges:
  assumes "0 < T"
  shows "concat (map (\<lambda>j. [JobOffset T n j..<JobOffset T n j + JobEntries T n j]) [0..<T]) = [0..<n]"
proof -
  obtain m where T: "T = Suc m" using assms by (cases T) auto
  have le: "(n div T) * T \<le> n" by (simp add: div_times_less_eq_dividend)
  have last: "JobOffset T n m + JobEntries T n m = n"
    using le T by (simp add: JobOffset_def JobEntries_def algebra_simps)
  have "(n div T) * m \<le> n" using le T by (simp add: algebra_simps)
  then have "[0..<(n div T) * m] @ [(n div T) * m..<n] = [0..<n]"
    by (metis upt_add_eq_append zero_le le_add_diff_inverse add.commute add.left_neutral)
  moreover have "JobOffset T n m = (n div T) * m" by (simp add: JobOffset_def)
  ultimately show ?thesis
    using job_ranges_prefix[of m T n] T last by simp
qed

lemma fold_concat_list: "fold f (concat xss) = fold (fold f) xss"
  by (induction xss) simp_all

lemma upt_shift: "[a..<a + k] = map (\<lambda>i. a + i) [0..<k]"
  by (induction k) simp_all

lemma fold_jobs:
  assumes "0 < T"
  shows "fold (\<lambda>j. fold (\<lambda>i. F (JobOffset T n j + i)) [0..<JobEntries T n j]) [0..<T] = fold F [0..<n]"
proof -
  have "\<And>j. fold (\<lambda>i. F (JobOffset T n j + i)) [0..<JobEntries T n j]
            = fold F [JobOffset T n j..<JobOffset T n j + JobEntries T n j]"
    by (simp add: upt_shift[of "JobOffset T n _"] fold_map comp_def)
  then have "fold (\<lambda>j. fold (\<lambda>i. F (JobOffset T n j + i)) [0..<JobEntries T n j]) [0..<T]
      = fold (fold F) (map (\<lambda>j. [JobOffset T n j..<JobOffset T n j + JobEntries T n j]) [0..<T])"
    by (simp add: fold_map comp_def)
  also have "\<dots> = fold F (concat (map (\<lambda>j. [JobOffset T n j..<JobOffset T n j + JobEntries T n j]) [0..<T]))"
    by (simp add: fold_concat_list)
  finally show ?thesis by (simp add: job_ranges[OF assms])
qed

subsection \<open>Third step: the unpack job\<close>

lemma fixedBucketLength_val: "fixedBucketLength = 2 ^ 26"
  by (simp add: fixedBucketLength_def K_def BB_DP_BUCKET_COUNT_def kExtraBits_def)

subsection \<open>Loops over buckets\<close>

lemma forBuckets_append:
  "forBuckets body (xs @ ys) s =
     (case forBuckets body xs s of
        Returns s' \<Rightarrow> forBuckets body ys s'
      | WaitsForever i s' \<Rightarrow> WaitsForever i s')"
  by (induction xs arbitrary: s) (auto split: Outcome.splits)

lemma forBuckets_invariant:
  assumes step: "\<And>b st. b < n \<Longrightarrow> I b st \<Longrightarrow> \<exists>st'. body b st = Returns st' \<and> I (Suc b) st'"
  shows "m \<le> n \<Longrightarrow> I 0 st \<Longrightarrow> \<exists>st'. forBuckets body [0..<m] st = Returns st' \<and> I m st'"
proof (induction m)
  case 0
  then show ?case by simp
next
  case (Suc m)
  then obtain st1 where 1: "forBuckets body [0..<m] st = Returns st1" "I m st1" by auto
  from step[of m st1] Suc.prems 1 obtain st2 where 2: "body m st1 = Returns st2" "I (Suc m) st2"
    by auto
  show ?case using 1 2 by (simp add: forBuckets_append)
qed

subsection \<open>First step: what each part changes\<close>

lemma BucketFirstStep_Returns:
  "bucket + 1 \<le> readFence s \<Longrightarrow>
     BucketFirstStep rTable bucket s =
       Returns (let r = PointersToLinePoints rTable (ptrTableBucketCounts s rTable bucket) s; s' = snd r
                in s'\<lparr>prunedEntryCount := prunedEntryCount s' + ucast (fst r),
                      rTableOffset := rTableOffset s' + ucast (ptrTableBucketCounts s rTable bucket)\<rparr>)"
  by (simp add: BucketFirstStep_def Let_def)

lemma PointersToLinePoints_frame [simp]:
  "entryCounts (snd (PointersToLinePoints rTable n s)) = entryCounts s"
  "bucketCounts (snd (PointersToLinePoints rTable n s)) = bucketCounts s"
  "ptrTableBucketCounts (snd (PointersToLinePoints rTable n s)) = ptrTableBucketCounts s"
  "threadCount (snd (PointersToLinePoints rTable n s)) = threadCount s"
  "bitFieldSize (snd (PointersToLinePoints rTable n s)) = bitFieldSize s"
  "markedEntries (snd (PointersToLinePoints rTable n s)) = markedEntries s"
  "lMap0 (snd (PointersToLinePoints rTable n s)) = lMap0 s"
  "lMap1 (snd (PointersToLinePoints rTable n s)) = lMap1 s"
  "rMap0 (snd (PointersToLinePoints rTable n s)) = rMap0 s"
  "rMap1 (snd (PointersToLinePoints rTable n s)) = rMap1 s"
  "rTablePairs0 (snd (PointersToLinePoints rTable n s)) = rTablePairs0 s"
  "rTablePairs1 (snd (PointersToLinePoints rTable n s)) = rTablePairs1 s"
  "readFence (snd (PointersToLinePoints rTable n s)) = readFence s"
  "prunedEntryCount (snd (PointersToLinePoints rTable n s)) = prunedEntryCount s"
  "lMapBucketCounts (snd (PointersToLinePoints rTable n s)) = lMapBucketCounts s"
  "rTableOffset (snd (PointersToLinePoints rTable n s)) = rTableOffset s"
  by (simp_all add: PointersToLinePoints_def Let_def)

lemma loadNextBucket_frame [simp]:
  "entryCounts (snd (loadNextBucket rTable b (le, s))) = entryCounts s"
  "bucketCounts (snd (loadNextBucket rTable b (le, s))) = bucketCounts s"
  "ptrTableBucketCounts (snd (loadNextBucket rTable b (le, s))) = ptrTableBucketCounts s"
  "threadCount (snd (loadNextBucket rTable b (le, s))) = threadCount s"
  "bitFieldSize (snd (loadNextBucket rTable b (le, s))) = bitFieldSize s"
  "markedEntries (snd (loadNextBucket rTable b (le, s))) = markedEntries s"
  "lMap0 (snd (loadNextBucket rTable b (le, s))) = lMap0 s"
  "rMap0 (snd (loadNextBucket rTable b (le, s))) = rMap0 s"
  "rTablePairs0 (snd (loadNextBucket rTable b (le, s))) = rTablePairs0 s"
  "rPrunedMap (snd (loadNextBucket rTable b (le, s))) = rPrunedMap s"
  "linePoints (snd (loadNextBucket rTable b (le, s))) = linePoints s"
  "readFence (snd (loadNextBucket rTable b (le, s))) = b + 2"
  "prunedEntryCount (snd (loadNextBucket rTable b (le, s))) = prunedEntryCount s"
  "lpBucketCounts (snd (loadNextBucket rTable b (le, s))) = lpBucketCounts s"
  "lMapBucketCounts (snd (loadNextBucket rTable b (le, s))) = lMapBucketCounts s"
  "rTableOffset (snd (loadNextBucket rTable b (le, s))) = rTableOffset s"
  by (simp_all add: loadNextBucket_def Let_def SignalFence_def)

lemma carryAndSwap_frame [simp]:
  "entryCounts (carryAndSwap rTable b s) = entryCounts s"
  "bucketCounts (carryAndSwap rTable b s) = bucketCounts s"
  "ptrTableBucketCounts (carryAndSwap rTable b s) = ptrTableBucketCounts s"
  "threadCount (carryAndSwap rTable b s) = threadCount s"
  "bitFieldSize (carryAndSwap rTable b s) = bitFieldSize s"
  "ioQueue (carryAndSwap rTable b s) = ioQueue s"
  "markedEntries (carryAndSwap rTable b s) = markedEntries s"
  "lMap1 (carryAndSwap rTable b s) = lMap0 s"
  "rMap0 (carryAndSwap rTable b s) = rMap1 s"
  "rMap1 (carryAndSwap rTable b s) = rMap0 s"
  "rTablePairs0 (carryAndSwap rTable b s) = rTablePairs1 s"
  "rTablePairs1 (carryAndSwap rTable b s) = rTablePairs0 s"
  "rPrunedMap (carryAndSwap rTable b s) = rPrunedMap s"
  "linePoints (carryAndSwap rTable b s) = linePoints s"
  "readFence (carryAndSwap rTable b s) = readFence s"
  "prunedEntryCount (carryAndSwap rTable b s) = prunedEntryCount s"
  "lpBucketCounts (carryAndSwap rTable b s) = lpBucketCounts s"
  "lMapBucketCounts (carryAndSwap rTable b s) = lMapBucketCounts s"
  "rTableOffset (carryAndSwap rTable b s) = rTableOffset s"
  by (simp_all add: carryAndSwap_def Let_def)

lemma readFirstBucket_frame [simp]:
  "entryCounts (snd (readFirstBucket rTable s)) = entryCounts s"
  "bucketCounts (snd (readFirstBucket rTable s)) = bucketCounts s"
  "ptrTableBucketCounts (snd (readFirstBucket rTable s)) = ptrTableBucketCounts s"
  "threadCount (snd (readFirstBucket rTable s)) = threadCount s"
  "bitFieldSize (snd (readFirstBucket rTable s)) = bitFieldSize s"
  "lMap1 (snd (readFirstBucket rTable s)) = lMap1 s"
  "rMap1 (snd (readFirstBucket rTable s)) = rMap1 s"
  "rTablePairs1 (snd (readFirstBucket rTable s)) = rTablePairs1 s"
  "rPrunedMap (snd (readFirstBucket rTable s)) = rPrunedMap s"
  "linePoints (snd (readFirstBucket rTable s)) = linePoints s"
  "readFence (snd (readFirstBucket rTable s)) = 1"
  "prunedEntryCount (snd (readFirstBucket rTable s)) = prunedEntryCount s"
  "lpBucketCounts (snd (readFirstBucket rTable s)) = lpBucketCounts s"
  "lMapBucketCounts (snd (readFirstBucket rTable s)) = lMapBucketCounts s"
  by (simp_all add: readFirstBucket_def Let_def SignalFence_def)

text \<open>The state that a pass of the first step leaves, when the bucket's fence is reached.\<close>

lemma firstStepBucket_Returns:
  assumes "readFence s = bucket + 1"
  shows "\<exists>le' s'. firstStepBucket rTable bucket (le, s) = Returns (le', s') \<and>
          readFence s' = (if bucket = BB_DP_BUCKET_COUNT - 1 then bucket + 1 else bucket + 2)"
  using assms
  by (simp add: firstStepBucket_def Let_def BucketFirstStep_Returns)

subsection \<open>Counting into buckets\<close>

lemma length_countUp [simp]: "length (countUp b cs) = length cs"
  by (simp add: countUp_def)

lemma length_fold_countUp [simp]: "length (fold (\<lambda>i. countUp (g i)) xs cs) = length cs"
  by (induction xs arbitrary: cs) simp_all

lemma fold_countUp_nth:
  "b < length cs \<Longrightarrow>
     fold (\<lambda>i. countUp (g i)) xs cs ! b = cs ! b + of_nat (length (filter (\<lambda>i. g i = b) xs))"
proof (induction xs arbitrary: cs)
  case Nil
  then show ?case by simp
next
  case (Cons x xs)
  have "countUp (g x) cs ! b = cs ! b + (if g x = b then 1 else 0)"
    using Cons.prems by (simp add: countUp_def nth_list_update)
  then show ?case using Cons by simp
qed

lemma sum_filter_buckets:
  "\<forall>i \<in> set xs. g i < (B::nat) \<Longrightarrow> (\<Sum>b<B. length (filter (\<lambda>i. g i = b) xs)) = length xs"
proof (induction xs)
  case Nil
  then show ?case by simp
next
  case (Cons x xs)
  have "(\<Sum>b<B. length (filter (\<lambda>i. g i = b) (x # xs)))
      = (\<Sum>b<B. (if g x = b then 1 else 0) + length (filter (\<lambda>i. g i = b) xs))"
    by (intro sum.cong) auto
  also have "\<dots> = (\<Sum>b<B. (if g x = b then 1 else 0)) + (\<Sum>b<B. length (filter (\<lambda>i. g i = b) xs))"
    by (simp add: sum.distrib)
  also have "(\<Sum>b<B. (if g x = b then 1 else 0 :: nat)) = 1"
    using Cons.prems by simp
  finally show ?case using Cons by simp
qed

lemma lpBucket_less: "lpBucket lp < BB_DPP3_LP_BUCKET_COUNT"
proof -
  have "unat lp < 2 ^ 8 * 2 ^ 56" using unsigned_less[of lp] by simp
  then have "unat lp div 2 ^ 56 < 2 ^ 8" by (rule less_mult_imp_div_less)
  then show ?thesis
    by (simp add: lpBucket_def BB_DPP3_LP_BUCKET_COUNT_def drop_bit_eq_div unat_div)
qed

lemma sum_list_upt_sum: "sum_list (map f [0..<n]) = (\<Sum>i<n. f i)"
  by (simp add: interv_sum_list_conv_sum_set_nat lessThan_atLeast0)

lemma of_nat_sum_list_word:
  "sum_list (map (\<lambda>t. (of_nat (f t) :: 'a::len word)) xs) = of_nat (sum_list (map f xs))"
  by (induction xs) simp_all

lemma length_bucketTotals [simp]: "length (bucketTotals B counts) = B"
  by (simp add: bucketTotals_def)

lemma bucketTotals_counts:
  assumes "\<forall>t<T. \<forall>i<m t. g t i < B"
  shows "\<exists>N. (\<forall>b<B. bucketTotals B (map (\<lambda>t. fold (\<lambda>i. countUp (g t i)) [0..<m t] (replicate B 0)) [0..<T]) ! b
                      = of_nat (N b))
             \<and> (\<Sum>b<B. N b) = (\<Sum>t<T. m t)"
proof -
  define cnt where "cnt t b = length (filter (\<lambda>i. g t i = b) [0..<m t])" for t b
  define N where "N b = (\<Sum>t<T. cnt t b)" for b
  have 1: "bucketTotals B (map (\<lambda>t. fold (\<lambda>i. countUp (g t i)) [0..<m t] (replicate B 0)) [0..<T]) ! b
             = of_nat (N b)" if b: "b < B" for b
  proof -
    have "bucketTotals B (map (\<lambda>t. fold (\<lambda>i. countUp (g t i)) [0..<m t] (replicate B 0)) [0..<T]) ! b
        = sum_list (map (\<lambda>t. fold (\<lambda>i. countUp (g t i)) [0..<m t] (replicate B 0) ! b) [0..<T])"
      using b by (simp add: bucketTotals_def comp_def)
    also have "\<dots> = sum_list (map (\<lambda>t. (of_nat (cnt t b) :: uint32)) [0..<T])"
      using b by (simp add: fold_countUp_nth cnt_def)
    also have "\<dots> = of_nat (sum_list (map (\<lambda>t. cnt t b) [0..<T]))"
      by (rule of_nat_sum_list_word)
    finally show ?thesis by (simp add: N_def sum_list_upt_sum)
  qed
  have "(\<Sum>b<B. N b) = (\<Sum>t<T. \<Sum>b<B. cnt t b)"
    unfolding N_def by (rule sum.swap)
  also have "\<dots> = (\<Sum>t<T. m t)"
  proof (intro sum.cong refl)
    fix t assume "t \<in> {..<T}"
    then have "\<forall>i\<in>set [0..<m t]. g t i < B" using assms by simp
    from sum_filter_buckets[OF this] show "(\<Sum>b<B. cnt t b) = m t" by (simp add: cnt_def)
  qed
  finally have 2: "(\<Sum>b<B. N b) = (\<Sum>t<T. m t)" .
  from 1 2 show ?thesis by blast
qed

lemma accumulate_counts:
  assumes len: "length old = B"
    and cnt: "\<forall>b<B. counts ! b = (of_nat (N b) :: uint32)"
    and fit: "sum_list (map unat old) + (\<Sum>b<B. N b) < 2 ^ 32"
  shows "sum_list (map unat (map (\<lambda>i. old ! i + counts ! i) [0..<B]))
           = sum_list (map unat old) + (\<Sum>b<B. N b)"
proof -
  have old: "sum_list (map unat old) = (\<Sum>i<B. unat (old ! i))"
    using len by (simp add: sum_list_sum_nth lessThan_atLeast0)
  have each: "unat (old ! i + counts ! i) = unat (old ! i) + N i" if i: "i < B" for i
  proof -
    have "unat (old ! i) \<le> (\<Sum>i<B. unat (old ! i))"
      using i by (intro member_le_sum) simp_all
    moreover have "N i \<le> (\<Sum>b<B. N b)"
      using i by (intro member_le_sum) simp_all
    ultimately have b: "unat (old ! i) + N i < 2 ^ 32" using fit old by simp
    then have n: "N i < 2 ^ 32" by simp
    have "unat (of_nat (N i) :: uint32) = N i" using n by (simp add: unat_of_nat)
    moreover have "unat (old ! i) + unat (of_nat (N i) :: uint32) < 2 ^ LENGTH(32)"
      using b n by (simp add: unat_of_nat)
    ultimately show ?thesis using cnt i by (simp add: unat_add_lem[THEN iffD1])
  qed
  have "sum_list (map unat (map (\<lambda>i. old ! i + counts ! i) [0..<B]))
      = (\<Sum>i<B. unat (old ! i + counts ! i))"
    by (simp add: comp_def sum_list_upt_sum)
  also have "\<dots> = (\<Sum>i<B. unat (old ! i) + N i)"
    by (intro sum.cong refl) (simp add: each)
  finally show ?thesis by (simp add: sum.distrib old)
qed

subsection \<open>First step: the counts of a bucket\<close>

lemma prunedLength_sum:
  assumes "0 < T"
  shows "(\<Sum>t<T. prunedLength T job t)
           = length (filter (marked job) [0..<unat (bucketEntryCount job)])"
proof -
  let ?n = "unat (bucketEntryCount job)"
  let ?ranges = "map (\<lambda>j. [JobOffset T ?n j..<JobOffset T ?n j + JobEntries T ?n j]) [0..<T]"
  have "(\<Sum>t<T. prunedLength T job t) = sum_list (map (prunedLength T job) [0..<T])"
    by (simp add: sum_list_upt_sum)
  also have "\<dots> = sum_list (map length (map (filter (marked job)) ?ranges))"
    unfolding prunedLength_def[abs_def] prunedIndices_def[abs_def] Let_def marked_def[abs_def]
    by (simp add: comp_def)
  also have "\<dots> = length (filter (marked job) (concat ?ranges))"
    by (simp add: length_concat filter_concat)
  finally show ?thesis by (simp add: job_ranges[OF assms])
qed

lemma totalPrunedEntryCount_sum:
  "0 < T \<Longrightarrow> totalPrunedEntryCount T job = (\<Sum>t<T. prunedLength T job t)"
  by (simp add: totalPrunedEntryCount_def sum_list_upt_sum[symmetric] upt_conv_Cons[of 0 T])

lemma totalPrunedEntryCount_le:
  "0 < T \<Longrightarrow> totalPrunedEntryCount T job \<le> unat (bucketEntryCount job)"
  using length_filter_le[of "marked job" "[0..<unat (bucketEntryCount job)]"]
  by (simp add: totalPrunedEntryCount_sum prunedLength_sum)

lemma ConvertToLPJob_Run_counts:
  assumes "0 < T"
  shows "resTotalPrunedEntryCount (ConvertToLPJob_Run T job bufs)
           = length (filter (marked job) [0..<unat (bucketEntryCount job)])"
    and "\<exists>N. (\<forall>b<BB_DPP3_LP_BUCKET_COUNT. resBucketCounts (ConvertToLPJob_Run T job bufs) ! b = of_nat (N b))
             \<and> (\<Sum>b<BB_DPP3_LP_BUCKET_COUNT. N b) = resTotalPrunedEntryCount (ConvertToLPJob_Run T job bufs)"
proof -
  show t: "resTotalPrunedEntryCount (ConvertToLPJob_Run T job bufs)
           = length (filter (marked job) [0..<unat (bucketEntryCount job)])"
    using assms by (simp add: ConvertToLPJob_Run_def Let_def totalPrunedEntryCount_sum prunedLength_sum)
  let ?lp = "fst (convertAll T job bufs)"
  have "\<forall>t<T. \<forall>i<prunedLength T job t. lpBucket (?lp ! (dstOffset T job t + i)) < BB_DPP3_LP_BUCKET_COUNT"
    by (simp add: lpBucket_less)
  from bucketTotals_counts[OF this]
  obtain N where N: "\<forall>b<BB_DPP3_LP_BUCKET_COUNT.
       bucketTotals BB_DPP3_LP_BUCKET_COUNT
         (map (\<lambda>t. fold (\<lambda>i. countUp (lpBucket (?lp ! (dstOffset T job t + i))))
                   [0..<prunedLength T job t] (replicate BB_DPP3_LP_BUCKET_COUNT 0)) [0..<T]) ! b = of_nat (N b)"
     "(\<Sum>b<BB_DPP3_LP_BUCKET_COUNT. N b) = (\<Sum>t<T. prunedLength T job t)"
    by blast
  have "resBucketCounts (ConvertToLPJob_Run T job bufs)
      = bucketTotals BB_DPP3_LP_BUCKET_COUNT
         (map (\<lambda>t. fold (\<lambda>i. countUp (lpBucket (?lp ! (dstOffset T job t + i))))
                   [0..<prunedLength T job t] (replicate BB_DPP3_LP_BUCKET_COUNT 0)) [0..<T])"
    by (simp add: ConvertToLPJob_Run_def Let_def lpCounts_def[abs_def])
  then show "\<exists>N. (\<forall>b<BB_DPP3_LP_BUCKET_COUNT. resBucketCounts (ConvertToLPJob_Run T job bufs) ! b = of_nat (N b))
             \<and> (\<Sum>b<BB_DPP3_LP_BUCKET_COUNT. N b) = resTotalPrunedEntryCount (ConvertToLPJob_Run T job bufs)"
    using N assms by (auto simp: ConvertToLPJob_Run_def Let_def totalPrunedEntryCount_sum)
qed

lemma unat_lt_32: "unat (n :: uint32) < 2 ^ 32"
  using unsigned_less[of n, where 'a=nat] by simp

lemma unat_ucast_32_64: "unat (ucast (c :: uint32) :: uint64) = unat c"
proof -
  have "unat c < 2 ^ 64" using unat_lt_32[of c] by simp
  then show ?thesis by (simp add: unsigned_ucast_eq take_bit_nat_eq_self)
qed

lemma stepJob_simps [simp]:
  "bucketEntryCount (stepJob s n) = n"
  "jobMarkedEntries (stepJob s n) = markedEntries s"
  "jobRMap (stepJob s n) = rMap0 s"
  by (simp_all add: stepJob_def)

lemma prunedInBucket_le: "prunedInBucket s n \<le> unat n"
  using length_filter_le[of "marked (stepJob s n)" "[0..<unat n]"]
  by (simp add: prunedInBucket_def)

lemma PointersToLinePoints_count:
  assumes "0 < threadCount s"
  shows "unat (fst (PointersToLinePoints rTable n s)) = prunedInBucket s n"
proof -
  have "fst (PointersToLinePoints rTable n s) = of_nat (prunedInBucket s n)"
    using ConvertToLPJob_Run_counts(1)[OF assms, of "stepJob s n"]
    by (simp add: PointersToLinePoints_def Let_def stepJob_def prunedInBucket_def)
  moreover have "prunedInBucket s n < 2 ^ 32"
    using prunedInBucket_le[of s n] unat_lt_32[of n] by simp
  ultimately show ?thesis by (simp add: unat_of_nat)
qed

lemma PointersToLinePoints_lpBucketCounts:
  assumes T: "0 < threadCount s"
    and len: "length (lpBucketCounts s) = BB_DPP3_LP_BUCKET_COUNT"
    and fit: "sum_list (map unat (lpBucketCounts s)) + prunedInBucket s n < 2 ^ 32"
  shows "length (lpBucketCounts (snd (PointersToLinePoints rTable n s))) = BB_DPP3_LP_BUCKET_COUNT"
    and "sum_list (map unat (lpBucketCounts (snd (PointersToLinePoints rTable n s))))
           = sum_list (map unat (lpBucketCounts s)) + prunedInBucket s n"
proof -
  let ?res = "ConvertToLPJob_Run (threadCount s) (stepJob s n) (linePoints s, rPrunedMap s)"
  have lp: "lpBucketCounts (snd (PointersToLinePoints rTable n s))
          = map (\<lambda>i. lpBucketCounts s ! i + resBucketCounts ?res ! i) [0..<BB_DPP3_LP_BUCKET_COUNT]"
    by (simp add: PointersToLinePoints_def Let_def stepJob_def)
  show "length (lpBucketCounts (snd (PointersToLinePoints rTable n s))) = BB_DPP3_LP_BUCKET_COUNT"
    by (simp add: lp)
  from ConvertToLPJob_Run_counts[OF T, of "stepJob s n" "(linePoints s, rPrunedMap s)"]
  obtain N where N: "\<forall>b<BB_DPP3_LP_BUCKET_COUNT. resBucketCounts ?res ! b = of_nat (N b)"
    "(\<Sum>b<BB_DPP3_LP_BUCKET_COUNT. N b) = prunedInBucket s n"
    by (auto simp: prunedInBucket_def)
  from accumulate_counts[OF len N(1)] fit N(2)
  show "sum_list (map unat (lpBucketCounts (snd (PointersToLinePoints rTable n s))))
           = sum_list (map unat (lpBucketCounts s)) + prunedInBucket s n"
    by (simp add: lp)
qed

lemma unat_add_ucast32:
  fixes p :: uint64 and c :: uint32
  assumes "unat p + unat c < 2 ^ 64"
  shows "unat (p + ucast c) = unat p + unat c"
proof -
  have "unat (ucast c :: uint64) = unat c" by (rule unat_ucast_32_64)
  then show ?thesis using assms by (simp add: unat_add_lem[THEN iffD1])
qed

lemma lpCountsInv_step:
  assumes T: "0 < threadCount s"
    and fit: "rEntriesBefore s rTable BB_DP_BUCKET_COUNT < 2 ^ 32"
    and b: "b < BB_DP_BUCKET_COUNT"
    and inv: "lpCountsInv s rTable b st"
  shows "\<exists>st'. firstStepBucket rTable b st = Returns st' \<and> lpCountsInv s rTable (Suc b) st'"
proof -
  obtain le s0 where st: "st = (le, s0)" by (cases st)
  define s1 where "s1 = snd (if b \<noteq> BB_DP_BUCKET_COUNT - 1 then loadNextBucket rTable b (le, s0) else (le, s0))"
  define le1 where "le1 = fst (if b \<noteq> BB_DP_BUCKET_COUNT - 1 then loadNextBucket rTable b (le, s0) else (le, s0))"
  define n where "n = ptrTableBucketCounts s rTable b"
  from inv st b have i0: "readFence s0 = b + 1" "threadCount s0 = threadCount s"
    "ptrTableBucketCounts s0 = ptrTableBucketCounts s" "entryCounts s0 = entryCounts s"
    "lMapBucketCounts s0 = lMapBucketCounts s"
    "length (lpBucketCounts s0) = BB_DPP3_LP_BUCKET_COUNT"
    "sum_list (map unat (lpBucketCounts s0)) = unat (prunedEntryCount s0)"
    "unat (prunedEntryCount s0) \<le> rEntriesBefore s rTable b"
    by (simp_all add: lpCountsInv_def)
  have i1: "readFence s1 = (if b \<noteq> BB_DP_BUCKET_COUNT - 1 then b + 2 else b + 1)"
    "threadCount s1 = threadCount s"
    "ptrTableBucketCounts s1 = ptrTableBucketCounts s" "entryCounts s1 = entryCounts s"
    "lMapBucketCounts s1 = lMapBucketCounts s"
    "lpBucketCounts s1 = lpBucketCounts s0" "prunedEntryCount s1 = prunedEntryCount s0"
    using i0 by (simp_all add: s1_def)
  have T1: "0 < threadCount s1" using T i1 by simp
  have next_sum: "rEntriesBefore s rTable (Suc b) = rEntriesBefore s rTable b + unat n"
    by (simp add: rEntriesBefore_def n_def)
  have "rEntriesBefore s rTable (Suc b) \<le> rEntriesBefore s rTable BB_DP_BUCKET_COUNT"
    unfolding rEntriesBefore_def using b by (intro sum_mono2) auto
  then have bound: "rEntriesBefore s rTable b + unat n < 2 ^ 32" using fit next_sum by simp
  have pl: "prunedInBucket s1 n \<le> unat n" by (rule prunedInBucket_le)
  have fit1: "sum_list (map unat (lpBucketCounts s1)) + prunedInBucket s1 n < 2 ^ 32"
    using i0 i1 bound pl by simp
  have len1: "length (lpBucketCounts s1) = BB_DPP3_LP_BUCKET_COUNT" using i0 i1 by simp
  note lp = PointersToLinePoints_lpBucketCounts[OF T1 len1 fit1, of rTable]
  note ct = PointersToLinePoints_count[OF T1, of rTable n]
  define s2 where "s2 = snd (PointersToLinePoints rTable n s1)"
  define s3 where "s3 = s2\<lparr>prunedEntryCount := prunedEntryCount s2 + ucast (fst (PointersToLinePoints rTable n s1)),
                            rTableOffset := rTableOffset s2 + ucast n\<rparr>"
  have fence: "b + 1 \<le> readFence s1" using i1 by simp
  have bfs: "BucketFirstStep rTable b s1 = Returns s3"
    using BucketFirstStep_Returns[OF fence, of rTable] i1
    by (simp add: s3_def s2_def n_def Let_def)
  have res: "firstStepBucket rTable b st = Returns (le1, carryAndSwap rTable b s3)"
    using bfs by (simp add: firstStepBucket_def st Let_def s1_def le1_def)
  have pec: "unat (prunedEntryCount s3) = unat (prunedEntryCount s0) + prunedInBucket s1 n"
  proof -
    have "unat (prunedEntryCount s0) + unat (fst (PointersToLinePoints rTable n s1)) < 2 ^ 64"
      using ct i0 bound pl by simp
    from unat_add_ucast32[OF this] show ?thesis
      using ct i1 by (simp add: s3_def s2_def)
  qed
  have "lpCountsInv s rTable (Suc b) (le1, carryAndSwap rTable b s3)"
    using i0 i1 lp pec pl next_sum b
    by (auto simp: lpCountsInv_def s3_def s2_def)
  with res show ?thesis by blast
qed

lemma BB_DP_BUCKET_COUNT_pos: "0 < BB_DP_BUCKET_COUNT"
  by (simp add: BB_DP_BUCKET_COUNT_def)

lemma TableFirstStep_lpCounts:
  assumes T: "0 < threadCount s"
    and fit: "rEntriesBefore s rTable BB_DP_BUCKET_COUNT < 2 ^ 32"
    and zero: "prunedEntryCount s = 0" "lpBucketCounts s = replicate BB_DPP3_LP_BUCKET_COUNT 0"
  shows "\<exists>s1. TableFirstStep rTable s = Returns s1 \<and>
           threadCount s1 = threadCount s \<and>
           entryCounts s1 = entryCounts s \<and>
           lMapBucketCounts s1 = lMapBucketCounts s \<and>
           length (lpBucketCounts s1) = BB_DPP3_LP_BUCKET_COUNT \<and>
           sum_list (map unat (lpBucketCounts s1)) = unat (prunedEntryCount s1) \<and>
           unat (prunedEntryCount s1) \<le> rEntriesBefore s rTable BB_DP_BUCKET_COUNT"
proof -
  have init: "lpCountsInv s rTable 0 (readFirstBucket rTable s)"
    using zero BB_DP_BUCKET_COUNT_pos by (simp add: lpCountsInv_def rEntriesBefore_def)
  from forBuckets_invariant[where I = "lpCountsInv s rTable" and body = "firstStepBucket rTable"
      and n = BB_DP_BUCKET_COUNT and m = BB_DP_BUCKET_COUNT, OF lpCountsInv_step[OF T fit] _ init]
  obtain st' where st': "forBuckets (firstStepBucket rTable) [0..<BB_DP_BUCKET_COUNT] (readFirstBucket rTable s)
      = Returns st'" "lpCountsInv s rTable BB_DP_BUCKET_COUNT st'"
    by auto
  then show ?thesis
    by (simp add: TableFirstStep_def lpCountsInv_def)
qed

subsection \<open>Second step: the counts\<close>

lemma JobEntries_sum:
  assumes "0 < T"
  shows "(\<Sum>t<T. JobEntries T n t) = n"
proof -
  let ?ranges = "map (\<lambda>j. [JobOffset T n j..<JobOffset T n j + JobEntries T n j]) [0..<T]"
  have "(\<Sum>t<T. JobEntries T n t) = sum_list (map length ?ranges)"
    by (simp add: comp_def sum_list_upt_sum)
  also have "\<dots> = length (concat ?ranges)" by (simp add: length_concat)
  finally show ?thesis by (simp add: job_ranges[OF assms])
qed

lemma kExtraBits_val: "kExtraBits = 6" by (simp add: kExtraBits_def)

lemma mapBucket_less: "mapBucket key < BB_DP_BUCKET_COUNT"
proof -
  have "unat key < 2 ^ 6 * 2 ^ 26" using unat_lt_32[of key] by simp
  then have "unat key div 2 ^ 26 < 2 ^ 6" by (rule less_mult_imp_div_less)
  then show ?thesis
    by (simp add: mapBucket_def BB_DP_BUCKET_COUNT_def kExtraBits_def drop_bit_eq_div unat_div)
qed

lemma WriteLPMapJob_Run_counts:
  assumes "0 < T"
  shows "\<exists>N. (\<forall>b<BB_DP_BUCKET_COUNT. snd (WriteLPMapJob_Run T n entryOffset inKey) ! b = of_nat (N b))
             \<and> (\<Sum>b<BB_DP_BUCKET_COUNT. N b) = n"
proof -
  have "\<forall>t<T. \<forall>i<JobEntries T n t. mapBucket (inKey ! i) < BB_DP_BUCKET_COUNT"
    by (simp add: mapBucket_less)
  from bucketTotals_counts[OF this]
  obtain N where N: "\<forall>b<BB_DP_BUCKET_COUNT.
       bucketTotals BB_DP_BUCKET_COUNT
         (map (\<lambda>t. fold (\<lambda>i. countUp (mapBucket (inKey ! i)))
                   [0..<JobEntries T n t] (replicate BB_DP_BUCKET_COUNT 0)) [0..<T]) ! b = of_nat (N b)"
     "(\<Sum>b<BB_DP_BUCKET_COUNT. N b) = (\<Sum>t<T. JobEntries T n t)"
    by blast
  have "snd (WriteLPMapJob_Run T n entryOffset inKey)
      = bucketTotals BB_DP_BUCKET_COUNT
         (map (\<lambda>t. fold (\<lambda>i. countUp (mapBucket (inKey ! i)))
                   [0..<JobEntries T n t] (replicate BB_DP_BUCKET_COUNT 0)) [0..<T])"
    by (simp add: WriteLPMapJob_Run_def Let_def mapCounts_def[abs_def])
  then show ?thesis using N JobEntries_sum[OF assms, of n] by auto
qed

lemma WriteLPReverseLookup_frame [simp]:
  "entryCounts (WriteLPReverseLookup rTable key b n eo s) = entryCounts s"
  "bucketCounts (WriteLPReverseLookup rTable key b n eo s) = bucketCounts s"
  "ptrTableBucketCounts (WriteLPReverseLookup rTable key b n eo s) = ptrTableBucketCounts s"
  "threadCount (WriteLPReverseLookup rTable key b n eo s) = threadCount s"
  "readFence (WriteLPReverseLookup rTable key b n eo s) = readFence s"
  "prunedEntryCount (WriteLPReverseLookup rTable key b n eo s) = prunedEntryCount s"
  "lpBucketCounts (WriteLPReverseLookup rTable key b n eo s) = lpBucketCounts s"
  by (simp_all add: WriteLPReverseLookup_def Let_def)

lemma WriteLPReverseLookup_counts:
  assumes T: "0 < threadCount s"
    and len: "length (lMapBucketCounts s) = BB_DP_BUCKET_COUNT"
    and fit: "sum_list (map unat (lMapBucketCounts s)) + unat n < 2 ^ 32"
  shows "length (lMapBucketCounts (WriteLPReverseLookup rTable key b n eo s)) = BB_DP_BUCKET_COUNT"
    and "sum_list (map unat (lMapBucketCounts (WriteLPReverseLookup rTable key b n eo s)))
           = sum_list (map unat (lMapBucketCounts s)) + unat n"
proof -
  let ?counts = "snd (WriteLPMapJob_Run (threadCount s) (unat n) eo key)"
  have lm: "lMapBucketCounts (WriteLPReverseLookup rTable key b n eo s)
          = map (\<lambda>i. lMapBucketCounts s ! i + ?counts ! i) [0..<BB_DP_BUCKET_COUNT]"
    by (simp add: WriteLPReverseLookup_def Let_def)
  show "length (lMapBucketCounts (WriteLPReverseLookup rTable key b n eo s)) = BB_DP_BUCKET_COUNT"
    by (simp add: lm)
  from WriteLPMapJob_Run_counts[OF T, of "unat n" eo key]
  obtain N where N: "\<forall>b<BB_DP_BUCKET_COUNT. ?counts ! b = of_nat (N b)"
    "(\<Sum>b<BB_DP_BUCKET_COUNT. N b) = unat n"
    by auto
  from accumulate_counts[OF len N(1)] fit N(2)
  show "sum_list (map unat (lMapBucketCounts (WriteLPReverseLookup rTable key b n eo s)))
           = sum_list (map unat (lMapBucketCounts s)) + unat n"
    by (simp add: lm)
qed

lemma LoadBucket2_frame [simp]:
  "entryCounts (snd (LoadBucket2 rTable b s)) = entryCounts s"
  "bucketCounts (snd (LoadBucket2 rTable b s)) = bucketCounts s"
  "ptrTableBucketCounts (snd (LoadBucket2 rTable b s)) = ptrTableBucketCounts s"
  "threadCount (snd (LoadBucket2 rTable b s)) = threadCount s"
  "readFence (snd (LoadBucket2 rTable b s)) = MapLoaded + b * FENCE_COUNT"
  "prunedEntryCount (snd (LoadBucket2 rTable b s)) = prunedEntryCount s"
  "lpBucketCounts (snd (LoadBucket2 rTable b s)) = lpBucketCounts s"
  "lMapBucketCounts (snd (LoadBucket2 rTable b s)) = lMapBucketCounts s"
  "linePoints (snd (LoadBucket2 rTable b s)) = linePoints s"
  "rPrunedMap (snd (LoadBucket2 rTable b s)) = rPrunedMap s"
  by (simp_all add: LoadBucket2_def Let_def SignalFence_def)

lemma lMapCountsInv_step:
  assumes T: "0 < threadCount s"
    and fit: "lpEntriesBefore s BB_DPP3_LP_BUCKET_COUNT < 2 ^ 32"
    and b: "b < BB_DPP3_LP_BUCKET_COUNT"
    and inv: "lMapCountsInv s b st"
  shows "\<exists>st'. secondStepBucket rTable b st = Returns st' \<and> lMapCountsInv s (Suc b) st'"
proof -
  obtain eo buffers s0 where st: "st = (eo, buffers, s0)" by (cases st)
  define s1 where "s1 = (if b \<noteq> BB_DPP3_LP_BUCKET_COUNT - 1 then snd (LoadBucket2 rTable (b + 1) s0) else s0)"
  define buffers1 where "buffers1 = (if b \<noteq> BB_DPP3_LP_BUCKET_COUNT - 1
      then buffers(b + 1 := fst (LoadBucket2 rTable (b + 1) s0)) else buffers)"
  define n where "n = lpBucketCounts s ! b"
  have bm: "min b (BB_DPP3_LP_BUCKET_COUNT - 1) = b" using b by simp
  from inv st bm have i0: "readFence s0 = MapLoaded + b * FENCE_COUNT" "threadCount s0 = threadCount s"
    "entryCounts s0 = entryCounts s" "prunedEntryCount s0 = prunedEntryCount s"
    "lpBucketCounts s0 = lpBucketCounts s" "length (lMapBucketCounts s0) = BB_DP_BUCKET_COUNT"
    "sum_list (map unat (lMapBucketCounts s0)) = lpEntriesBefore s b"
    "unat eo = lpEntriesBefore s b"
    by (simp_all add: lMapCountsInv_def)
  have i1: "readFence s1 = MapLoaded + (min (Suc b) (BB_DPP3_LP_BUCKET_COUNT - 1)) * FENCE_COUNT"
    "threadCount s1 = threadCount s"
    "entryCounts s1 = entryCounts s" "prunedEntryCount s1 = prunedEntryCount s"
    "lpBucketCounts s1 = lpBucketCounts s" "lMapBucketCounts s1 = lMapBucketCounts s0"
    using i0 b by (auto simp: s1_def min_def)
  have fence: "\<not> readFence s1 < MapLoaded + b * FENCE_COUNT" using i1 b by (auto simp: min_def)
  have next_sum: "lpEntriesBefore s (Suc b) = lpEntriesBefore s b + unat n"
    by (simp add: lpEntriesBefore_def n_def)
  have "lpEntriesBefore s (Suc b) \<le> lpEntriesBefore s BB_DPP3_LP_BUCKET_COUNT"
    unfolding lpEntriesBefore_def using b by (intro sum_mono2) auto
  then have bound: "lpEntriesBefore s b + unat n < 2 ^ 32" using fit next_sum by simp
  define sorted where "sorted = SortWithKey (fst (buffers1 b)) (snd (buffers1 b)) (unat n)"
  define s2 where "s2 = s1\<lparr>linePoints := blit (linePoints s1) 0 (fst sorted),
                           rPrunedMap := blit (rPrunedMap s1) 0 (snd sorted)\<rparr>"
  define s3 where "s3 = WriteLPReverseLookup rTable (rPrunedMap s2) b n eo s2"
  have res: "secondStepBucket rTable b st = Returns (eo + ucast n, buffers1, s3)"
    using fence i0(5) i1(5)
    unfolding s3_def s2_def sorted_def buffers1_def n_def s1_def
    by (cases "b = BB_DPP3_LP_BUCKET_COUNT - 1") (simp_all add: secondStepBucket_def st Let_def)
  have T2: "0 < threadCount s2" using T i1 by (simp add: s2_def)
  have len2: "length (lMapBucketCounts s2) = BB_DP_BUCKET_COUNT" using i0 i1 by (simp add: s2_def)
  have fit2: "sum_list (map unat (lMapBucketCounts s2)) + unat n < 2 ^ 32"
    using i0 i1 bound by (simp add: s2_def)
  note c = WriteLPReverseLookup_counts[OF T2 len2 fit2, of rTable "rPrunedMap s2" b eo]
  have eo: "unat (eo + ucast n) = lpEntriesBefore s (Suc b)"
  proof -
    have "unat eo + unat n < 2 ^ 64" using i0 bound by simp
    from unat_add_ucast32[OF this] show ?thesis using i0 next_sum by simp
  qed
  have "lMapCountsInv s (Suc b) (eo + ucast n, buffers1, s3)"
    using i0 i1 c eo next_sum by (simp add: lMapCountsInv_def s3_def s2_def)
  with res show ?thesis by blast
qed

lemma LoadBucket2_readFence0: "readFence (snd (LoadBucket2 rTable 0 s)) = MapLoaded"
  by simp

lemma TableSecondStep_lMapCounts:
  assumes T: "0 < threadCount s"
    and fit: "lpEntriesBefore s BB_DPP3_LP_BUCKET_COUNT < 2 ^ 32"
    and zero: "lMapBucketCounts s = replicate BB_DP_BUCKET_COUNT 0"
  shows "\<exists>s2. TableSecondStep rTable s = Returns s2 \<and>
           entryCounts s2 = entryCounts s \<and>
           prunedEntryCount s2 = prunedEntryCount s \<and>
           lpBucketCounts s2 = lpBucketCounts s \<and>
           length (lMapBucketCounts s2) = BB_DP_BUCKET_COUNT \<and>
           sum_list (map unat (lMapBucketCounts s2)) = lpEntriesBefore s BB_DPP3_LP_BUCKET_COUNT"
proof -
  define s0 where "s0 = s\<lparr>readFence := 0,
                 ioQueue := SeekBucket (LP_KEY rTable) (SeekBucket (LP rTable) (ioQueue s))\<rparr>"
  define st0 where "st0 = (0 :: uint64, (\<lambda>b::nat. ([], []))(0 := fst (LoadBucket2 rTable 0 s0)), snd (LoadBucket2 rTable 0 s0))"
  have T0: "0 < threadCount s0" and fit0: "lpEntriesBefore s0 BB_DPP3_LP_BUCKET_COUNT < 2 ^ 32"
    using T fit by (simp_all add: s0_def lpEntriesBefore_def)
  have init: "lMapCountsInv s0 0 st0"
    using zero by (simp add: lMapCountsInv_def st0_def lpEntriesBefore_def s0_def)
  from forBuckets_invariant[where I = "lMapCountsInv s0" and body = "secondStepBucket rTable"
      and n = BB_DPP3_LP_BUCKET_COUNT and m = BB_DPP3_LP_BUCKET_COUNT,
      OF lMapCountsInv_step[OF T0 fit0] _ init]
  obtain st' where st': "forBuckets (secondStepBucket rTable) [0..<BB_DPP3_LP_BUCKET_COUNT] st0 = Returns st'"
    "lMapCountsInv s0 BB_DPP3_LP_BUCKET_COUNT st'"
    by auto
  obtain eo bf s2 where e: "st' = (eo, bf, s2)" by (cases st')
  have "TableSecondStep rTable s = Returns s2"
    using st'(1) e by (simp add: TableSecondStep_def Let_def s0_def[symmetric] st0_def[symmetric])
  moreover have "entryCounts s2 = entryCounts s" "prunedEntryCount s2 = prunedEntryCount s"
    "lpBucketCounts s2 = lpBucketCounts s" "length (lMapBucketCounts s2) = BB_DP_BUCKET_COUNT"
    "sum_list (map unat (lMapBucketCounts s2)) = lpEntriesBefore s BB_DPP3_LP_BUCKET_COUNT"
    using st'(2) e by (simp_all add: lMapCountsInv_def s0_def lpEntriesBefore_def)
  ultimately show ?thesis by blast
qed

subsection \<open>Bucket sums\<close>

lemma resetTable_simps [simp]:
  "threadCount (resetTable s) = threadCount s"
  "entryCounts (resetTable s) = entryCounts s"
  "bucketCounts (resetTable s) = bucketCounts s"
  "ptrTableBucketCounts (resetTable s) = ptrTableBucketCounts s"
  "bitFieldSize (resetTable s) = bitFieldSize s"
  "ioQueue (resetTable s) = ioQueue s"
  "markedEntries (resetTable s) = markedEntries s"
  "rMap0 (resetTable s) = rMap0 s"
  "rMap1 (resetTable s) = rMap1 s"
  "lMap0 (resetTable s) = lMap0 s"
  "lMap1 (resetTable s) = lMap1 s"
  "prunedEntryCount (resetTable s) = 0"
  "lpBucketCounts (resetTable s) = replicate BB_DPP3_LP_BUCKET_COUNT 0"
  "lMapBucketCounts (resetTable s) = replicate BB_DP_BUCKET_COUNT 0"
  by (simp_all add: resetTable_def)

text \<open>
  Claim C8. In an iteration of a table whose r-entries number less than \<open>2 ^ 32\<close>, on a
  positive number of threads, the first step returns and leaves 256 line point bucket
  counts whose sum is the pruned entry count; the second step, run next, returns and
  leaves \<open>BB_DP_BUCKET_COUNT\<close> reverse-map bucket counts whose sum is that same pruned count.
\<close>

theorem bucket_sums_are_pruned_count:
  assumes "0 < threadCount s"
    and "(\<Sum>b<BB_DP_BUCKET_COUNT. unat (ptrTableBucketCounts s rTable b)) < 2 ^ 32"
  shows "\<exists>s1 s2. TableFirstStep rTable (resetTable s) = Returns s1 \<and>
           TableSecondStep rTable s1 = Returns s2 \<and>
           length (lpBucketCounts s1) = 256 \<and>
           sum_list (map unat (lpBucketCounts s1)) = unat (prunedEntryCount s1) \<and>
           length (lMapBucketCounts s2) = BB_DP_BUCKET_COUNT \<and>
           sum_list (map unat (lMapBucketCounts s2)) = unat (prunedEntryCount s1) \<and>
           prunedEntryCount s2 = prunedEntryCount s1"
proof -
  have T: "0 < threadCount (resetTable s)" using assms(1) by simp
  have fit: "rEntriesBefore (resetTable s) rTable BB_DP_BUCKET_COUNT < 2 ^ 32"
    using assms(2) by (simp add: rEntriesBefore_def)
  from TableFirstStep_lpCounts[OF T fit, of ] obtain s1 where s1:
    "TableFirstStep rTable (resetTable s) = Returns s1"
    "threadCount s1 = threadCount (resetTable s)"
    "lMapBucketCounts s1 = lMapBucketCounts (resetTable s)"
    "length (lpBucketCounts s1) = BB_DPP3_LP_BUCKET_COUNT"
    "sum_list (map unat (lpBucketCounts s1)) = unat (prunedEntryCount s1)"
    "unat (prunedEntryCount s1) \<le> rEntriesBefore (resetTable s) rTable BB_DP_BUCKET_COUNT"
    by auto
  have T1: "0 < threadCount s1" using s1 T by simp
  have sum1: "lpEntriesBefore s1 BB_DPP3_LP_BUCKET_COUNT = sum_list (map unat (lpBucketCounts s1))"
    using s1(4) by (simp add: lpEntriesBefore_def sum_list_sum_nth lessThan_atLeast0)
  have fit1: "lpEntriesBefore s1 BB_DPP3_LP_BUCKET_COUNT < 2 ^ 32"
    using sum1 s1(5,6) fit by simp
  have z1: "lMapBucketCounts s1 = replicate BB_DP_BUCKET_COUNT 0" using s1(3) by simp
  from TableSecondStep_lMapCounts[OF T1 fit1 z1, of rTable] obtain s2 where s2:
    "TableSecondStep rTable s1 = Returns s2"
    "prunedEntryCount s2 = prunedEntryCount s1"
    "length (lMapBucketCounts s2) = BB_DP_BUCKET_COUNT"
    "sum_list (map unat (lMapBucketCounts s2)) = lpEntriesBefore s1 BB_DPP3_LP_BUCKET_COUNT"
    by auto
  show ?thesis
    using s1 s2 sum1 by (auto simp: BB_DPP3_LP_BUCKET_COUNT_def)
qed

text \<open>The theorem at the small table 2.\<close>

theorem bucket_sums_are_pruned_count_witness:
  "0 < threadCount smallPhase \<and>
   (\<Sum>b<BB_DP_BUCKET_COUNT. unat (ptrTableBucketCounts smallPhase Table2 b)) < 2 ^ 32 \<and>
   (\<exists>s1 s2. TableFirstStep Table2 (resetTable smallPhase) = Returns s1 \<and>
           TableSecondStep Table2 s1 = Returns s2 \<and>
           length (lpBucketCounts s1) = 256 \<and>
           sum_list (map unat (lpBucketCounts s1)) = unat (prunedEntryCount s1) \<and>
           length (lMapBucketCounts s2) = BB_DP_BUCKET_COUNT \<and>
           sum_list (map unat (lMapBucketCounts s2)) = unat (prunedEntryCount s1) \<and>
           prunedEntryCount s2 = prunedEntryCount s1)"
proof -
  have 1: "0 < threadCount smallPhase" by (simp add: smallPhase_def)
  have "(\<Sum>b<BB_DP_BUCKET_COUNT. unat (ptrTableBucketCounts smallPhase Table2 b))
      = (\<Sum>b<BB_DP_BUCKET_COUNT. if b = 0 then 3 else 0)"
    by (intro sum.cong refl) (simp add: smallPhase_def)
  then have 2: "(\<Sum>b<BB_DP_BUCKET_COUNT. unat (ptrTableBucketCounts smallPhase Table2 b)) < 2 ^ 32"
    by (simp add: BB_DP_BUCKET_COUNT_def)
  from bucket_sums_are_pruned_count[OF 1 2] 1 2 show ?thesis by blast
qed

subsection \<open>Buffers and files\<close>

lemma length_blit [simp]: "length (blit buf off xs) = length buf"
  by (auto simp: blit_def min_def)

lemma take_blit_0: "length xs \<le> length buf \<Longrightarrow> take (length xs) (blit buf 0 xs) = xs"
  by (simp add: blit_def)

lemma length_slice: "off + n \<le> length xs \<Longrightarrow> length (slice xs off n) = n"
  by (simp add: slice_def)

lemma length_slice_le: "length (slice xs off n) \<le> n"
  by (simp add: slice_def)

lemma slice_map: "slice (map f xs) off n = map f (slice xs off n)"
  by (simp add: slice_def take_map drop_map)

lemma take_add_slice: "take (a + n) xs = take a xs @ slice xs a n"
  by (simp add: slice_def take_add)

lemma map_nth_take: "n \<le> length xs \<Longrightarrow> map (\<lambda>i. xs ! i) [0..<n] = take n xs"
  by (simp add: list_eq_iff_nth_eq)

lemma length_filter_nth:
  assumes "n \<le> length xs"
  shows "length (filter (\<lambda>i. P (xs ! i)) [0..<n]) = length (filter P (take n xs))"
proof -
  have "length (filter P (take n xs)) = length (filter P (map (\<lambda>i. xs ! i) [0..<n]))"
    using assms by (simp add: map_nth_take)
  also have "\<dots> = length (filter (\<lambda>i. P (xs ! i)) [0..<n])"
    by (simp add: filter_map comp_def)
  finally show ?thesis by simp
qed

lemma ReadFile_simps [simp]:
  "files (ReadFile g b dst off n q) = files q"
  "positions (ReadFile g b dst off n q) f b'
     = (if f = g \<and> b' = b then positions q f b + length (fileData g b n q) else positions q f b')"
  by (simp_all add: ReadFile_def)

lemma SeekFile_simps [simp]:
  "files (SeekFile g b q) = files q"
  "positions (SeekFile g b q) f b' = (if f = g \<and> b' = b then 0 else positions q f b')"
  by (simp_all add: SeekFile_def)

lemma SeekBucket_simps [simp]:
  "files (SeekBucket g q) = files q"
  "positions (SeekBucket g q) f b' = (if f = g then 0 else positions q f b')"
  by (simp_all add: SeekBucket_def)

lemma SignalFenceQ_simps [simp]:
  "files (SignalFenceQ i q) = files q"
  "positions (SignalFenceQ i q) = positions q"
  by (simp_all add: SignalFenceQ_def)

lemma WriteBuckets_other [simp]:
  "f \<noteq> g \<Longrightarrow> files (WriteBuckets g buf counts q) f = files q f"
  "f \<noteq> g \<Longrightarrow> positions (WriteBuckets g buf counts q) f = positions q f"
  by (simp_all add: WriteBuckets_def)

lemma fileData_cong:
  "files q f b = files q' f b \<Longrightarrow> positions q f b = positions q' f b \<Longrightarrow>
     fileData f b n q = fileData f b n q'"
  by (simp add: fileData_def)

lemma lMapId_neq [simp]:
  "lMapId rTable \<noteq> MAP t" "lMapId rTable \<noteq> MARKED_ENTRIES t"
  "MAP t \<noteq> lMapId rTable" "MARKED_ENTRIES t \<noteq> lMapId rTable"
  by (simp_all add: lMapId_def)

subsection \<open>First step: the r-map\<close>

lemma PointersToLinePoints_io [simp]:
  "files (ioQueue (snd (PointersToLinePoints rTable n s))) (MAP t) = files (ioQueue s) (MAP t)"
  "positions (ioQueue (snd (PointersToLinePoints rTable n s))) (MAP t) = positions (ioQueue s) (MAP t)"
  by (simp_all add: PointersToLinePoints_def Let_def)

lemma readFirstBucket_rMap:
  "rMap0 (snd (readFirstBucket rTable s))
     = blit (rMap0 s) 0 (slice (rKeys s rTable) 0 (unat (ptrTableBucketCounts s rTable 0)))"
  "files (ioQueue (snd (readFirstBucket rTable s))) (MAP rTable) = files (ioQueue s) (MAP rTable)"
  "positions (ioQueue (snd (readFirstBucket rTable s))) (MAP rTable) 0
     = length (slice (rKeys s rTable) 0 (unat (ptrTableBucketCounts s rTable 0)))"
  by (simp_all add: readFirstBucket_def Let_def SignalFence_def fileData_def rKeys_def slice_map)

lemma loadNextBucket_rMap:
  "rMap1 (snd (loadNextBucket rTable b (le, s)))
     = blit (rMap1 s) 0 (slice (map ucast (files (ioQueue s) (MAP rTable) 0))
                               (positions (ioQueue s) (MAP rTable) 0)
                               (unat (ptrTableBucketCounts s rTable (b + 1))))"
  "files (ioQueue (snd (loadNextBucket rTable b (le, s)))) (MAP rTable) = files (ioQueue s) (MAP rTable)"
  "positions (ioQueue (snd (loadNextBucket rTable b (le, s)))) (MAP rTable) 0
     = positions (ioQueue s) (MAP rTable) 0
       + length (slice (map ucast (files (ioQueue s) (MAP rTable) 0) :: uint32 list)
                       (positions (ioQueue s) (MAP rTable) 0)
                       (unat (ptrTableBucketCounts s rTable (b + 1))))"
  by (simp_all add: loadNextBucket_def Let_def SignalFence_def fileData_def slice_map)

lemma readFirstBucket_marked:
  "markedEntries (snd (readFirstBucket rTable s))
     = blit (markedEntries s) 0 (slice (markedFile s rTable) 0 (bitFieldSize s div 8))"
  by (simp add: readFirstBucket_def Let_def SignalFence_def fileData_def markedFile_def)

lemma prunedInBucket_keys:
  assumes "unat n \<le> length (rMap0 s)"
  shows "prunedInBucket s n
           = length (filter (\<lambda>k. BitField_Get (markedEntries s) (unat k)) (take (unat n) (rMap0 s)))"
  using length_filter_nth[OF assms, of "\<lambda>k. BitField_Get (markedEntries s) (unat k)"]
  by (simp add: prunedInBucket_def marked_def[abs_def])

lemma rEntriesBefore_Suc:
  "rEntriesBefore s rTable (Suc b) = rEntriesBefore s rTable b + unat (ptrTableBucketCounts s rTable b)"
  by (simp add: rEntriesBefore_def)

lemma rEntriesBefore_mono: "a \<le> b \<Longrightarrow> rEntriesBefore s rTable a \<le> rEntriesBefore s rTable b"
  unfolding rEntriesBefore_def by (intro sum_mono2) auto

lemma rEntriesBefore_bound: "rEntriesBefore s rTable b \<le> b * 2 ^ 32"
proof (induction b)
  case 0
  then show ?case by (simp add: rEntriesBefore_def)
next
  case (Suc b)
  have "unat (ptrTableBucketCounts s rTable b) < 2 ^ 32" by (rule unat_lt_32)
  then show ?case using Suc by (simp add: rEntriesBefore_Suc)
qed

lemma prunedInv_step:
  assumes T: "0 < threadCount s"
    and whole: "rEntriesBefore s rTable BB_DP_BUCKET_COUNT \<le> length (rKeys s rTable)"
    and b: "b < BB_DP_BUCKET_COUNT"
    and inv: "prunedInv s rTable b st"
  shows "\<exists>st'. firstStepBucket rTable b st = Returns st' \<and> prunedInv s rTable (Suc b) st'"
proof -
  obtain le s0 where st: "st = (le, s0)" by (cases st)
  define M where "M = markedEntries (snd (readFirstBucket rTable s))"
  define P where "P = (\<lambda>k :: uint32. BitField_Get M (unat k))"
  define keys where "keys = rKeys s rTable"
  define R where "R = rEntriesBefore s rTable"
  define cnt where "cnt = (\<lambda>j. unat (ptrTableBucketCounts s rTable j))"
  define last where "last = (b = BB_DP_BUCKET_COUNT - 1)"
  define s1 where "s1 = snd (if \<not> last then loadNextBucket rTable b (le, s0) else (le, s0))"
  define le1 where "le1 = fst (if \<not> last then loadNextBucket rTable b (le, s0) else (le, s0))"
  define n where "n = ptrTableBucketCounts s rTable b"
  have RS: "\<And>j. R (Suc j) = R j + cnt j" by (simp add: R_def cnt_def rEntriesBefore_Suc)
  have bm: "min (b + 1) BB_DP_BUCKET_COUNT = b + 1" using b by simp
  from inv st b bm have i0: "readFence s0 = b + 1" "threadCount s0 = threadCount s"
    "ptrTableBucketCounts s0 = ptrTableBucketCounts s"
    "markedEntries s0 = M"
    "files (ioQueue s0) (MAP rTable) 0 = files (ioQueue s) (MAP rTable) 0"
    "positions (ioQueue s0) (MAP rTable) 0 = R (Suc b)"
    "\<forall>j<BB_DP_BUCKET_COUNT. cnt j \<le> length (rMap0 s0) \<and> cnt j \<le> length (rMap1 s0)"
    "take (cnt b) (rMap0 s0) = slice keys (R b) (cnt b)"
    "unat (prunedEntryCount s0) = length (filter P (take (R b) keys))"
    by (simp_all add: prunedInv_def M_def P_def keys_def R_def cnt_def)
  have keys_file: "map ucast (files (ioQueue s0) (MAP rTable) 0) = keys"
    using i0(5) by (simp add: keys_def rKeys_def)
  \<comment> \<open>the state after the background load\<close>
  have nextlen: "length (slice keys (R (Suc b)) (cnt (Suc b))) = cnt (Suc b)" if "\<not> last"
  proof -
    have "Suc (Suc b) \<le> BB_DP_BUCKET_COUNT" using that b by (simp add: last_def)
    then have "R (Suc (Suc b)) \<le> R BB_DP_BUCKET_COUNT"
      unfolding R_def by (rule rEntriesBefore_mono)
    then have "R (Suc b) + cnt (Suc b) \<le> length keys"
      using whole RS by (simp add: keys_def R_def)
    then show ?thesis by (rule length_slice)
  qed
  have i1: "readFence s1 = (if \<not> last then b + 2 else b + 1)"
    "threadCount s1 = threadCount s"
    "ptrTableBucketCounts s1 = ptrTableBucketCounts s"
    "markedEntries s1 = M"
    "files (ioQueue s1) (MAP rTable) 0 = files (ioQueue s) (MAP rTable) 0"
    "rMap0 s1 = rMap0 s0"
    "prunedEntryCount s1 = prunedEntryCount s0"
    using i0 by (simp_all add: s1_def loadNextBucket_rMap)
  have pos1: "positions (ioQueue s1) (MAP rTable) 0 = R (min (Suc b + 1) BB_DP_BUCKET_COUNT)"
  proof (cases last)
    case True
    then show ?thesis using i0 b by (simp add: s1_def last_def)
  next
    case False
    then have "min (Suc b + 1) BB_DP_BUCKET_COUNT = Suc (Suc b)" using b by (simp add: last_def)
    then show ?thesis
      using False i0 nextlen[OF False] keys_file RS
      by (simp add: s1_def loadNextBucket_rMap cnt_def)
  qed
  have rMap1: "rMap1 s1 = (if \<not> last then blit (rMap1 s0) 0 (slice keys (R (Suc b)) (cnt (Suc b)))
                           else rMap1 s0)"
    using i0 keys_file by (simp add: s1_def loadNextBucket_rMap cnt_def)
  have len1: "\<forall>j<BB_DP_BUCKET_COUNT. cnt j \<le> length (rMap0 s1) \<and> cnt j \<le> length (rMap1 s1)"
    using i0(7) i1(6) rMap1 by simp
  have take1: "take (cnt (Suc b)) (rMap1 s1) = slice keys (R (Suc b)) (cnt (Suc b))" if "\<not> last"
  proof -
    have "Suc b < BB_DP_BUCKET_COUNT" using that b by (simp add: last_def)
    then have "cnt (Suc b) \<le> length (rMap1 s0)" using i0(7) by simp
    then have "length (slice keys (R (Suc b)) (cnt (Suc b))) \<le> length (rMap1 s0)"
      using nextlen[OF that] by simp
    from take_blit_0[OF this] show ?thesis using that rMap1 nextlen[OF that] by simp
  qed
  \<comment> \<open>the bucket itself\<close>
  have T1: "0 < threadCount s1" using T i1 by simp
  note ct = PointersToLinePoints_count[OF T1, of rTable n]
  have nb: "unat n \<le> length (rMap0 s1)" using i0(7) i1(6) b by (simp add: n_def cnt_def)
  have c: "prunedInBucket s1 n = length (filter P (slice keys (R b) (cnt b)))"
    using prunedInBucket_keys[OF nb] i0(8) i1(4,6) by (simp add: P_def n_def cnt_def)
  define s2 where "s2 = snd (PointersToLinePoints rTable n s1)"
  define s3 where "s3 = s2\<lparr>prunedEntryCount := prunedEntryCount s2 + ucast (fst (PointersToLinePoints rTable n s1)),
                            rTableOffset := rTableOffset s2 + ucast n\<rparr>"
  have fence: "b + 1 \<le> readFence s1" using i1 by simp
  have bfs: "BucketFirstStep rTable b s1 = Returns s3"
    using BucketFirstStep_Returns[OF fence, of rTable] i1
    by (simp add: s3_def s2_def n_def Let_def)
  have res: "firstStepBucket rTable b st = Returns (le1, carryAndSwap rTable b s3)"
    using bfs by (simp add: firstStepBucket_def st Let_def s1_def le1_def last_def)
  have pec: "unat (prunedEntryCount s3) = length (filter P (take (R (Suc b)) keys))"
  proof -
    have "length (filter P (take (R b) keys)) \<le> R b"
      using length_filter_le[of P "take (R b) keys"] by simp
    moreover have "R b \<le> b * 2 ^ 32" unfolding R_def by (rule rEntriesBefore_bound)
    moreover have "b * 2 ^ 32 \<le> 64 * (2 ^ 32 :: nat)" using b by (simp add: BB_DP_BUCKET_COUNT_val)
    moreover have "unat (fst (PointersToLinePoints rTable n s1)) < 2 ^ 32" by (rule unat_lt_32)
    ultimately have "unat (prunedEntryCount s0) + unat (fst (PointersToLinePoints rTable n s1)) < 2 ^ 64"
      using i0(9) by simp
    from unat_add_ucast32[OF this] have "unat (prunedEntryCount s3)
        = length (filter P (take (R b) keys)) + length (filter P (slice keys (R b) (cnt b)))"
      using ct c i0(9) i1(7) by (simp add: s3_def s2_def)
    then show ?thesis by (simp add: RS take_add_slice)
  qed
  have "prunedInv s rTable (Suc b) (le1, carryAndSwap rTable b s3)"
    unfolding prunedInv_def
  proof (intro conjI)
    show "readFence (snd (le1, carryAndSwap rTable b s3))
        = (if Suc b < BB_DP_BUCKET_COUNT then Suc b + 1 else BB_DP_BUCKET_COUNT)"
      using i1 b by (auto simp: s3_def s2_def last_def)
    show "threadCount (snd (le1, carryAndSwap rTable b s3)) = threadCount s"
      using i1 by (simp add: s3_def s2_def)
    show "ptrTableBucketCounts (snd (le1, carryAndSwap rTable b s3)) = ptrTableBucketCounts s"
      using i1 by (simp add: s3_def s2_def)
    show "markedEntries (snd (le1, carryAndSwap rTable b s3)) = markedEntries (snd (readFirstBucket rTable s))"
      using i1 by (simp add: s3_def s2_def M_def)
    show "files (ioQueue (snd (le1, carryAndSwap rTable b s3))) (MAP rTable) 0 = files (ioQueue s) (MAP rTable) 0"
      using i1 by (simp add: s3_def s2_def)
    show "positions (ioQueue (snd (le1, carryAndSwap rTable b s3))) (MAP rTable) 0
        = rEntriesBefore s rTable (min (Suc b + 1) BB_DP_BUCKET_COUNT)"
      using pos1 by (simp add: s3_def s2_def R_def)
    show "\<forall>j<BB_DP_BUCKET_COUNT.
       unat (ptrTableBucketCounts s rTable j) \<le> length (rMap0 (snd (le1, carryAndSwap rTable b s3))) \<and>
       unat (ptrTableBucketCounts s rTable j) \<le> length (rMap1 (snd (le1, carryAndSwap rTable b s3)))"
      using len1 by (simp add: s3_def s2_def cnt_def)
    show "Suc b < BB_DP_BUCKET_COUNT \<longrightarrow>
       take (unat (ptrTableBucketCounts s rTable (Suc b))) (rMap0 (snd (le1, carryAndSwap rTable b s3)))
         = slice (rKeys s rTable) (rEntriesBefore s rTable (Suc b)) (unat (ptrTableBucketCounts s rTable (Suc b)))"
    proof
      assume "Suc b < BB_DP_BUCKET_COUNT"
      then have "\<not> last" by (simp add: last_def)
      from take1[OF this] show "take (unat (ptrTableBucketCounts s rTable (Suc b))) (rMap0 (snd (le1, carryAndSwap rTable b s3)))
         = slice (rKeys s rTable) (rEntriesBefore s rTable (Suc b)) (unat (ptrTableBucketCounts s rTable (Suc b)))"
        by (simp add: s3_def s2_def cnt_def keys_def R_def)
    qed
    show "unat (prunedEntryCount (snd (le1, carryAndSwap rTable b s3)))
        = length (filter (\<lambda>k. BitField_Get (markedEntries (snd (readFirstBucket rTable s))) (unat k))
                    (take (rEntriesBefore s rTable (Suc b)) (rKeys s rTable)))"
      using pec by (simp add: P_def M_def keys_def R_def)
  qed
  with res show ?thesis by blast
qed

lemma prunedInv_init:
  assumes buf: "\<forall>j<BB_DP_BUCKET_COUNT.
         unat (ptrTableBucketCounts s rTable j) \<le> length (rMap0 s) \<and>
         unat (ptrTableBucketCounts s rTable j) \<le> length (rMap1 s)"
    and whole: "rEntriesBefore s rTable BB_DP_BUCKET_COUNT \<le> length (rKeys s rTable)"
    and zero: "prunedEntryCount s = 0"
  shows "prunedInv s rTable 0 (readFirstBucket rTable s)"
proof -
  let ?n = "unat (ptrTableBucketCounts s rTable 0)"
  have "rEntriesBefore s rTable (Suc 0) \<le> rEntriesBefore s rTable BB_DP_BUCKET_COUNT"
    using BB_DP_BUCKET_COUNT_pos by (intro rEntriesBefore_mono) simp
  then have "0 + ?n \<le> length (rKeys s rTable)"
    using whole by (simp add: rEntriesBefore_def)
  then have len: "length (slice (rKeys s rTable) 0 ?n) = ?n" by (rule length_slice)
  have "?n \<le> length (rMap0 s)" using buf BB_DP_BUCKET_COUNT_pos by simp
  then have "length (slice (rKeys s rTable) 0 ?n) \<le> length (rMap0 s)" using len by simp
  from take_blit_0[OF this] have tk: "take ?n (rMap0 (snd (readFirstBucket rTable s)))
      = slice (rKeys s rTable) 0 ?n"
    using len by (simp add: readFirstBucket_rMap)
  show ?thesis
    using BB_DP_BUCKET_COUNT_pos buf zero tk len
    by (simp add: prunedInv_def readFirstBucket_rMap rEntriesBefore_def)
qed

lemma TableFirstStep_pruned:
  assumes T: "0 < threadCount s"
    and buf: "\<forall>j<BB_DP_BUCKET_COUNT.
         unat (ptrTableBucketCounts s rTable j) \<le> length (rMap0 s) \<and>
         unat (ptrTableBucketCounts s rTable j) \<le> length (rMap1 s)"
    and whole: "rEntriesBefore s rTable BB_DP_BUCKET_COUNT = length (rKeys s rTable)"
    and zero: "prunedEntryCount s = 0"
  shows "\<exists>s1. TableFirstStep rTable s = Returns s1 \<and>
           unat (prunedEntryCount s1)
             = length (filter (\<lambda>k. BitField_Get (markedEntries (snd (readFirstBucket rTable s))) (unat k))
                         (rKeys s rTable))"
proof -
  have whole': "rEntriesBefore s rTable BB_DP_BUCKET_COUNT \<le> length (rKeys s rTable)"
    using whole by simp
  from forBuckets_invariant[where I = "prunedInv s rTable" and body = "firstStepBucket rTable"
      and n = BB_DP_BUCKET_COUNT and m = BB_DP_BUCKET_COUNT,
      OF prunedInv_step[OF T whole'] _ prunedInv_init[OF buf whole' zero]]
  obtain st' where st': "forBuckets (firstStepBucket rTable) [0..<BB_DP_BUCKET_COUNT] (readFirstBucket rTable s)
      = Returns st'" "prunedInv s rTable BB_DP_BUCKET_COUNT st'"
    by auto
  then show ?thesis
    using whole by (simp add: TableFirstStep_def prunedInv_def)
qed

lemma BitField_Get_prefix:
  "i < 64 * length F \<Longrightarrow> BitField_Get (F @ rest) i = BitField_Get F i"
proof -
  assume "i < 64 * length F"
  then have "i div 64 < length F" by simp
  then show ?thesis by (simp add: BitField_Get_def nth_append)
qed

lemma blit_whole: "length xs \<le> length buf \<Longrightarrow> blit buf 0 xs = xs @ drop (length xs) buf"
  by (simp add: blit_def)

lemma marked_keys_popcount:
  assumes d: "distinct keys"
    and range: "\<forall>k \<in> set keys. unat k < 64 * length F"
    and cover: "\<forall>i<64 * length F. BitField_Get F i \<longrightarrow> i \<in> unat ` set keys"
  shows "length (filter (\<lambda>k :: uint32. BitField_Get F (unat k)) keys) = popcount F"
proof -
  have "length (filter (\<lambda>k. BitField_Get F (unat k)) keys)
      = card {k \<in> set keys. BitField_Get F (unat k)}"
    using d by (simp add: distinct_length_filter Int_def conj_commute)
  also have "\<dots> = card (unat ` {k \<in> set keys. BitField_Get F (unat k)})"
    by (rule card_image[symmetric]) (simp add: inj_on_def word_unat_eq_iff)
  also have "unat ` {k \<in> set keys. BitField_Get F (unat k)} = {i. i < 64 * length F \<and> BitField_Get F i}"
    using range cover by (auto simp: image_iff)
  also have "card {i. i < 64 * length F \<and> BitField_Get F i} = popcount F"
  proof -
    have "popcount F = card ({i. BitField_Get F i} \<inter> set [0..<64 * length F])"
      unfolding popcount_def by (rule distinct_length_filter) simp
    also have "{i. BitField_Get F i} \<inter> set [0..<64 * length F] = {i. i < 64 * length F \<and> BitField_Get F i}"
      by auto
    finally show ?thesis by simp
  qed
  finally show ?thesis .
qed

lemma resetTable_derived [simp]:
  "rKeys (resetTable s) rTable = rKeys s rTable"
  "markedFile (resetTable s) rTable = markedFile s rTable"
  "rEntriesBefore (resetTable s) rTable b = rEntriesBefore s rTable b"
  by (simp_all add: rKeys_def markedFile_def rEntriesBefore_def)

lemma prunedIndices_concat:
  assumes "0 < T"
  shows "concat (map (prunedIndices T job) [0..<T])
           = filter (marked job) [0..<unat (bucketEntryCount job)]"
proof -
  let ?n = "unat (bucketEntryCount job)"
  let ?ranges = "map (\<lambda>j. [JobOffset T ?n j..<JobOffset T ?n j + JobEntries T ?n j]) [0..<T]"
  have "concat (map (prunedIndices T job) [0..<T]) = concat (map (filter (marked job)) ?ranges)"
    unfolding prunedIndices_def[abs_def] Let_def marked_def[abs_def] by (simp add: comp_def)
  also have "\<dots> = filter (marked job) (concat ?ranges)" by (simp add: filter_concat)
  finally show ?thesis by (simp add: job_ranges[OF assms])
qed



subsection \<open>First step: the l-table buffer\<close>

lemma commands_simps [simp]:
  "commands (ReadFile f b dst off n q) = commands q @ [ReadFileCmd f b dst off n]"
  "commands (SeekFile f b q) = commands q @ [SeekFileCmd f b]"
  "commands (SeekBucket f q) = commands q @ [SeekBucketCmd f]"
  "commands (SignalFenceQ i q) = commands q @ [SignalFenceCmd i]"
  "commands (WriteBuckets f buf counts q) = commands q @ [WriteBucketsCmd f]"
  by (simp_all add: ReadFile_def SeekFile_def SeekBucket_def SignalFenceQ_def WriteBuckets_def)

lemma lMapId_neq_ptr [simp]:
  "lMapId rTable \<noteq> BACK_PTR_LEFT t" "lMapId rTable \<noteq> BACK_PTR_RIGHT t"
  "BACK_PTR_LEFT t \<noteq> lMapId rTable" "BACK_PTR_RIGHT t \<noteq> lMapId rTable"
  by (simp_all add: lMapId_def)

lemma lReadDests_readFirstBucket:
  "lReadDests rTable (snd (readFirstBucket rTable s)) = lReadDests rTable s @ [(B_lMap 0, 0)]"
  by (simp add: lReadDests_def readFirstBucket_def Let_def SignalFence_def isReadOf_def readDest_def)

lemma lReadDests_loadNextBucket:
  "lReadDests rTable (snd (loadNextBucket rTable b (le, s)))
     = lReadDests rTable s @ [(B_lMap 1, P3_EXTRA_L_ENTRIES_TO_LOAD)]"
  by (simp add: lReadDests_def loadNextBucket_def Let_def SignalFence_def isReadOf_def readDest_def)

lemma lReadDests_PointersToLinePoints [simp]:
  "lReadDests rTable (snd (PointersToLinePoints t n s)) = lReadDests rTable s"
  by (simp add: lReadDests_def PointersToLinePoints_def Let_def isReadOf_def)

lemma lReadDests_update [simp]:
  "lReadDests rTable (s\<lparr>prunedEntryCount := p, rTableOffset := o'\<rparr>) = lReadDests rTable s"
  by (simp add: lReadDests_def)

lemma lReadDests_carryAndSwap [simp]:
  "lReadDests rTable (carryAndSwap t b s) = lReadDests rTable s"
  by (simp add: lReadDests_def)

lemma lReadInv_step:
  assumes b: "b < BB_DP_BUCKET_COUNT"
    and inv: "lReadInv s rTable b st"
  shows "\<exists>st'. firstStepBucket rTable b st = Returns st' \<and> lReadInv s rTable (Suc b) st'"
proof -
  obtain le s0 where st: "st = (le, s0)" by (cases st)
  have bm: "min b (BB_DP_BUCKET_COUNT - 1) = b" using b by simp
  from inv st b bm have i0: "readFence s0 = b + 1"
    "lReadDests rTable s0 = lReadDests rTable s @ (B_lMap 0, 0) # replicate b (B_lMap 1, P3_EXTRA_L_ENTRIES_TO_LOAD)"
    by (simp_all add: lReadInv_def)
  show ?thesis
  proof (cases "b = BB_DP_BUCKET_COUNT - 1")
    case True
    then have m: "min (Suc b) (BB_DP_BUCKET_COUNT - 1) = b" by simp
    have "b + 1 \<le> readFence s0" using i0 by simp
    from BucketFirstStep_Returns[OF this, of rTable] show ?thesis
      using True i0 b m
      by (simp add: firstStepBucket_def st Let_def lReadInv_def)
  next
    case False
    then have m: "min (Suc b) (BB_DP_BUCKET_COUNT - 1) = Suc b" using b by simp
    let ?s1 = "snd (loadNextBucket rTable b (le, s0))"
    have "b + 1 \<le> readFence ?s1" by simp
    from BucketFirstStep_Returns[OF this, of rTable] show ?thesis
      using False i0 b m
      by (simp add: firstStepBucket_def st Let_def lReadInv_def lReadDests_loadNextBucket
          replicate_append_same)
  qed
qed

lemma TableFirstStep_lReadDests:
  "\<exists>s'. TableFirstStep rTable s = Returns s' \<and>
         lReadDests rTable s'
           = lReadDests rTable s @ (B_lMap 0, 0)
               # replicate (BB_DP_BUCKET_COUNT - 1) (B_lMap 1, P3_EXTRA_L_ENTRIES_TO_LOAD)"
proof -
  have init: "lReadInv s rTable 0 (readFirstBucket rTable s)"
    using BB_DP_BUCKET_COUNT_pos by (simp add: lReadInv_def lReadDests_readFirstBucket)
  from forBuckets_invariant[where I = "lReadInv s rTable" and body = "firstStepBucket rTable"
      and n = BB_DP_BUCKET_COUNT and m = BB_DP_BUCKET_COUNT, OF lReadInv_step _ init]
  obtain st' where "forBuckets (firstStepBucket rTable) [0..<BB_DP_BUCKET_COUNT] (readFirstBucket rTable s)
      = Returns st'" "lReadInv s rTable BB_DP_BUCKET_COUNT st'"
    by auto
  then show ?thesis by (simp add: TableFirstStep_def lReadInv_def)
qed

lemma loadNextBucket_lMap:
  "lMap1 (snd (loadNextBucket rTable b (le, s)))
     = blit (lMap1 s) P3_EXTRA_L_ENTRIES_TO_LOAD (nextLValues rTable b le s)"
  by (simp add: loadNextBucket_def Let_def SignalFence_def nextLValues_def)

lemma slice_blit_same:
  "off + length xs \<le> length buf \<Longrightarrow> slice (blit buf off xs) off (length xs) = xs"
  by (simp add: blit_def slice_def)

lemma blit_blit_disjoint_take:
  assumes "length ys = n" "n \<le> off" "n \<le> length buf"
  shows "take n (blit (blit buf off xs) 0 ys) = ys"
  using assms take_blit_0[of ys "blit buf off xs"] by simp

lemma slice_blit_front:
  assumes "length ys \<le> off" "off + length xs \<le> length buf"
  shows "slice (blit (blit buf off xs) 0 ys) off (length xs) = xs"
proof -
  have "off + length xs \<le> length (blit buf off xs)" using assms by simp
  have "drop off (blit (blit buf off xs) 0 ys) = drop off (blit buf off xs)"
    using assms by (simp add: blit_def)
  then show ?thesis using slice_blit_same[OF assms(2)] by (simp add: slice_def)
qed

lemma firstStepBucket_carry:
  assumes b: "b + 1 < BB_DP_BUCKET_COUNT"
    and l1: "P3_EXTRA_L_ENTRIES_TO_LOAD \<le> length (lMap1 s)"
    and l0: "unat (bucketCounts s (rTable - 1) b) + P3_EXTRA_L_ENTRIES_TO_LOAD \<le> length (lMap0 s)"
  shows "\<exists>st'. firstStepBucket rTable b (le, s) = Returns st' \<and>
           take P3_EXTRA_L_ENTRIES_TO_LOAD (lMap0 (snd st'))
             = slice (lMap0 s) (unat (bucketCounts s (rTable - 1) b)) P3_EXTRA_L_ENTRIES_TO_LOAD \<and>
           (P3_EXTRA_L_ENTRIES_TO_LOAD + length (nextLValues rTable b le s) \<le> length (lMap1 s) \<longrightarrow>
              slice (lMap0 (snd st')) P3_EXTRA_L_ENTRIES_TO_LOAD (length (nextLValues rTable b le s))
                = nextLValues rTable b le s)"
proof -
  let ?E = "P3_EXTRA_L_ENTRIES_TO_LOAD"
  let ?s1 = "snd (loadNextBucket rTable b (le, s))"
  let ?n = "unat (bucketCounts s (rTable - 1) b)"
  let ?carry = "slice (lMap0 s) ?n ?E"
  have nl: "b \<noteq> BB_DP_BUCKET_COUNT - 1" using b by simp
  have "b + 1 \<le> readFence ?s1" by simp
  from BucketFirstStep_Returns[OF this, of rTable]
  obtain s3 where s3: "BucketFirstStep rTable b ?s1 = Returns s3"
    "lMap0 s3 = lMap0 s" "lMap1 s3 = lMap1 ?s1" "bucketCounts s3 = bucketCounts s"
    by (simp add: Let_def)
  have res: "firstStepBucket rTable b (le, s)
      = Returns (fst (loadNextBucket rTable b (le, s)), carryAndSwap rTable b s3)"
    using nl s3(1) by (simp add: firstStepBucket_def Let_def)
  have lc: "length ?carry = ?E" using l0 by (simp add: length_slice)
  have new: "lMap0 (carryAndSwap rTable b s3)
      = blit (blit (lMap1 s) ?E (nextLValues rTable b le s)) 0 ?carry"
    using s3 by (simp add: carryAndSwap_def Let_def loadNextBucket_lMap)
  have 1: "take ?E (lMap0 (carryAndSwap rTable b s3)) = ?carry"
    unfolding new using lc l1 by (intro blit_blit_disjoint_take) simp_all
  have 2: "slice (lMap0 (carryAndSwap rTable b s3)) ?E (length (nextLValues rTable b le s))
      = nextLValues rTable b le s"
    if "?E + length (nextLValues rTable b le s) \<le> length (lMap1 s)"
    unfolding new using lc that by (intro slice_blit_front) simp_all
  from res 1 2 show ?thesis by auto
qed

lemma length_lMap0_readFirstBucket [simp]:
  "length (lMap0 (snd (readFirstBucket rTable s))) = length (lMap0 s)"
  by (simp add: readFirstBucket_def Let_def SignalFence_def)




subsection \<open>The entry counts during an iteration\<close>

lemma firstStepFrame_step:
  assumes b: "b < BB_DP_BUCKET_COUNT"
    and inv: "firstStepFrame s b st"
  shows "\<exists>st'. firstStepBucket rTable b st = Returns st' \<and> firstStepFrame s (Suc b) st'"
proof -
  obtain le s0 where st: "st = (le, s0)" by (cases st)
  from inv st b have i0: "readFence s0 = b + 1" "entryCounts s0 = entryCounts s"
    by (simp_all add: firstStepFrame_def)
  show ?thesis
  proof (cases "b = BB_DP_BUCKET_COUNT - 1")
    case True
    have "b + 1 \<le> readFence s0" using i0 by simp
    from BucketFirstStep_Returns[OF this, of rTable] show ?thesis
      using True i0 b by (simp add: firstStepBucket_def st Let_def firstStepFrame_def)
  next
    case False
    let ?s1 = "snd (loadNextBucket rTable b (le, s0))"
    have "b + 1 \<le> readFence ?s1" by simp
    from BucketFirstStep_Returns[OF this, of rTable] show ?thesis
      using False i0 b by (simp add: firstStepBucket_def st Let_def firstStepFrame_def)
  qed
qed

lemma TableFirstStep_entryCounts:
  "\<exists>s1. TableFirstStep rTable s = Returns s1 \<and> entryCounts s1 = entryCounts s"
proof -
  have init: "firstStepFrame s 0 (readFirstBucket rTable s)"
    using BB_DP_BUCKET_COUNT_pos by (simp add: firstStepFrame_def)
  from forBuckets_invariant[where I = "firstStepFrame s" and body = "firstStepBucket rTable"
      and n = BB_DP_BUCKET_COUNT and m = BB_DP_BUCKET_COUNT, OF firstStepFrame_step _ init]
  obtain st' where "forBuckets (firstStepBucket rTable) [0..<BB_DP_BUCKET_COUNT] (readFirstBucket rTable s)
      = Returns st'" "firstStepFrame s BB_DP_BUCKET_COUNT st'"
    by auto
  then show ?thesis by (simp add: TableFirstStep_def firstStepFrame_def)
qed

lemma secondStepFrame_step:
  assumes b: "b < BB_DPP3_LP_BUCKET_COUNT"
    and inv: "secondStepFrame s b st"
  shows "\<exists>st'. secondStepBucket rTable b st = Returns st' \<and> secondStepFrame s (Suc b) st'"
proof -
  obtain eo buffers s0 where st: "st = (eo, buffers, s0)" by (cases st)
  have bm: "min b (BB_DPP3_LP_BUCKET_COUNT - 1) = b" using b by simp
  from inv st bm have i0: "readFence s0 = MapLoaded + b * FENCE_COUNT" "entryCounts s0 = entryCounts s"
    by (simp_all add: secondStepFrame_def)
  show ?thesis
  proof (cases "b = BB_DPP3_LP_BUCKET_COUNT - 1")
    case True
    then have "min (Suc b) (BB_DPP3_LP_BUCKET_COUNT - 1) = b" by simp
    then show ?thesis
      using True i0 by (simp add: secondStepBucket_def st Let_def secondStepFrame_def)
  next
    case False
    then have "min (Suc b) (BB_DPP3_LP_BUCKET_COUNT - 1) = Suc b" using b by simp
    then show ?thesis
      using False i0 by (simp add: secondStepBucket_def st Let_def secondStepFrame_def)
  qed
qed

lemma TableSecondStep_entryCounts:
  "\<exists>s2. TableSecondStep rTable s = Returns s2 \<and> entryCounts s2 = entryCounts s"
proof -
  define s0 where "s0 = s\<lparr>readFence := 0,
                 ioQueue := SeekBucket (LP_KEY rTable) (SeekBucket (LP rTable) (ioQueue s))\<rparr>"
  define st0 where "st0 = (0 :: uint64, (\<lambda>b::nat. ([], []))(0 := fst (LoadBucket2 rTable 0 s0)), snd (LoadBucket2 rTable 0 s0))"
  have init: "secondStepFrame s 0 st0"
    by (simp add: secondStepFrame_def st0_def s0_def)
  from forBuckets_invariant[where I = "secondStepFrame s" and body = "secondStepBucket rTable"
      and n = BB_DPP3_LP_BUCKET_COUNT and m = BB_DPP3_LP_BUCKET_COUNT, OF secondStepFrame_step _ init]
  obtain st' where st': "forBuckets (secondStepBucket rTable) [0..<BB_DPP3_LP_BUCKET_COUNT] st0 = Returns st'"
    "secondStepFrame s BB_DPP3_LP_BUCKET_COUNT st'"
    by auto
  then show ?thesis
    by (simp add: TableSecondStep_def Let_def s0_def[symmetric] st0_def[symmetric] secondStepFrame_def)
qed

subsection \<open>Round trip: the key that follows a line point\<close>

lemma CalculatePrefixSum_nth:
  "b < B \<Longrightarrow>
     CalculatePrefixSum B counts j ! b
       = sum_list (take b (bucketTotals B counts)) + sum_list (map (\<lambda>c. c ! b) (take (j + 1) counts))"
  by (simp add: CalculatePrefixSum_def)

lemma replicate_2: "replicate 2 x = [x, x]"
  by (simp add: numeral_2_eq_2)

lemma upt_2: "[0..<2] = [0, Suc 0]"
  by (simp add: upt_rec)

lemma smallJob_pruned:
  "prunedIndices 2 smallJob 0 = [0]" "prunedIndices 2 smallJob (Suc 0) = [1]"
  by code_simp+

lemma smallJob_lengths:
  "prunedLength 2 smallJob 0 = 1" "prunedLength 2 smallJob (Suc 0) = 1"
  "dstOffset 2 smallJob 0 = 0" "dstOffset 2 smallJob (Suc 0) = 1"
  "totalPrunedEntryCount 2 smallJob = 2"
  by (simp_all add: prunedLength_def dstOffset_def totalPrunedEntryCount_def smallJob_pruned upt_rec)

lemma smallJob_convertAll:
  "convertAll 2 smallJob staleBuffers = ([200, 455, 0, 0], [2, 0, 7, 7])"
  unfolding staleBuffers_def by code_simp

lemma lpBucket_small: "lpBucket 200 = 0" "lpBucket 455 = 0"
  by code_simp+

lemma smallJob_lpCounts:
  "lpCounts 2 smallJob [200, 455, 0, 0] 0 ! 0 = 1"
  "lpCounts 2 smallJob [200, 455, 0, 0] (Suc 0) ! 0 = 1"
  by (simp_all add: lpCounts_def smallJob_lengths BB_DPP3_LP_BUCKET_COUNT_def
      lpBucket_small countUp_def)

lemma smallJob_pfxSum:
  "CalculatePrefixSum BB_DPP3_LP_BUCKET_COUNT
     [lpCounts 2 smallJob [200, 455, 0, 0] 0, lpCounts 2 smallJob [200, 455, 0, 0] (Suc 0)] 0 ! 0 = 1"
  "CalculatePrefixSum BB_DPP3_LP_BUCKET_COUNT
     [lpCounts 2 smallJob [200, 455, 0, 0] 0, lpCounts 2 smallJob [200, 455, 0, 0] (Suc 0)] (Suc 0) ! 0 = 2"
  by (simp_all add: CalculatePrefixSum_nth BB_DPP3_LP_BUCKET_COUNT_def smallJob_lpCounts)

lemma smallJob_distribute:
  "distribute 2 smallJob ([200, 455, 0, 0], [2, 0, 7, 7])
     (CalculatePrefixSum BB_DPP3_LP_BUCKET_COUNT
        [lpCounts 2 smallJob [200, 455, 0, 0] 0, lpCounts 2 smallJob [200, 455, 0, 0] (Suc 0)] 0)
     0 ([0, 0], [0, 0]) = ([200, 0], [0, 0])"
  "distribute 2 smallJob ([200, 455, 0, 0], [2, 0, 7, 7])
     (CalculatePrefixSum BB_DPP3_LP_BUCKET_COUNT
        [lpCounts 2 smallJob [200, 455, 0, 0] 0, lpCounts 2 smallJob [200, 455, 0, 0] (Suc 0)] (Suc 0))
     (Suc 0) ([200, 0], [0, 0]) = ([200, 455], [0, 7])"
  by (simp_all add: distribute_def smallJob_lengths distributeStep_def lpBucket_small
      smallJob_pfxSum Let_def)

lemma smallJob_Run:
  "resLpOutBuffer (ConvertToLPJob_Run 2 smallJob staleBuffers) = [200, 455]"
  "resKeyOutBuffer (ConvertToLPJob_Run 2 smallJob staleBuffers) = [0, 7]"
  by (simp_all add: ConvertToLPJob_Run_def Let_def smallJob_convertAll smallJob_lengths
      GetBuffer_def upt_2 replicate_2 smallJob_distribute)

lemma JobEntries_2_2: "JobEntries 2 2 0 = 1" "JobEntries 2 2 (Suc 0) = 1"
  "JobOffset 2 2 0 = 0" "JobOffset 2 2 (Suc 0) = 1"
  by (simp_all add: JobEntries_def JobOffset_def)

lemma mapBucket_small: "mapBucket 0 = 0" "mapBucket 7 = 0"
  by code_simp+

lemma small_mapCounts:
  "mapCounts 2 2 [0, 7] 0 ! 0 = 1" "mapCounts 2 2 [0, 7] (Suc 0) ! 0 = 1"
  by (simp_all add: mapCounts_def JobEntries_2_2 BB_DP_BUCKET_COUNT_val mapBucket_small countUp_def)

lemma small_map_pfxSum:
  "CalculatePrefixSum BB_DP_BUCKET_COUNT [mapCounts 2 2 [0, 7] 0, mapCounts 2 2 [0, 7] (Suc 0)] 0 ! 0 = 1"
  "CalculatePrefixSum BB_DP_BUCKET_COUNT [mapCounts 2 2 [0, 7] 0, mapCounts 2 2 [0, 7] (Suc 0)] (Suc 0) ! 0 = 2"
  by (simp_all add: CalculatePrefixSum_nth BB_DP_BUCKET_COUNT_val small_mapCounts)

lemma small_writeMap:
  "writeMap 2 2 0 [0, 7]
     (CalculatePrefixSum BB_DP_BUCKET_COUNT [mapCounts 2 2 [0, 7] 0, mapCounts 2 2 [0, 7] (Suc 0)] 0)
     0 [0, 0] = [0, 0]"
  "writeMap 2 2 0 [0, 7]
     (CalculatePrefixSum BB_DP_BUCKET_COUNT [mapCounts 2 2 [0, 7] 0, mapCounts 2 2 [0, 7] (Suc 0)] (Suc 0))
     (Suc 0) [0, 0] = [0, 4294967303]"
  by (simp_all add: writeMap_def writeMapStep_def mapRecord_def JobEntries_2_2 mapBucket_small
      small_map_pfxSum Let_def)

lemma small_WriteLPMapJob_Run:
  "fst (WriteLPMapJob_Run 2 2 0 [0, 7]) = [0, 4294967303]"
  by (simp add: WriteLPMapJob_Run_def Let_def GetBuffer_def upt_2 replicate_2 small_writeMap)

lemma small_SortWithKey: "SortWithKey [200, 455] [0, 7] 2 = ([200, 455], [0, 7])"
  by code_simp

lemma small_linePoints: "SquareToLinePoint 10 20 = 200" "SquareToLinePoint 20 30 = 455"
  by code_simp+

text \<open>
  Claim C3. The claim asks, for every surviving entry with original index \<open>i\<close>, for
  exactly one reverse-map record with low half \<open>i\<close> whose high half is the sorted position
  of the entry's line point. On two threads, bucket 0 of the small table has the
  surviving positions 0 and 1, with the original indices 2 and 0 and the line points
  \<open>SquareToLinePoint 10 20 = 200\<close> and \<open>SquareToLinePoint 20 30 = 455\<close>. The job hands the
  line points 200 and 455 to the buckets with the keys 0 and 7: thread 0 reads the key of
  thread 1 and thread 1 reads what lies behind the keys. The second step then writes the
  records \<open>0\<close> and \<open>2 ^ 32 + 7\<close>: no record has the low half 2, and the record with the
  low half 0 names position 0, where the line point is 200 and not 455.
\<close>

theorem keys_do_not_follow_their_line_points:
  "concat (map (prunedIndices 2 smallJob) [0, Suc 0]) = [0, 1] \<and>
   map (\<lambda>i. jobRMap smallJob ! i) [0, 1] = [2, 0] \<and>
   resLpOutBuffer (ConvertToLPJob_Run 2 smallJob staleBuffers)
     = [SquareToLinePoint 10 20, SquareToLinePoint 20 30] \<and>
   resKeyOutBuffer (ConvertToLPJob_Run 2 smallJob staleBuffers) = [0, 7] \<and>
   SortWithKey (resLpOutBuffer (ConvertToLPJob_Run 2 smallJob staleBuffers))
     (resKeyOutBuffer (ConvertToLPJob_Run 2 smallJob staleBuffers)) 2 = ([200, 455], [0, 7]) \<and>
   fst (WriteLPMapJob_Run 2 2 0 [0, 7]) = [0, 2 ^ 32 + 7] \<and>
   filter (\<lambda>m. (ucast m :: uint32) = 2) (fst (WriteLPMapJob_Run 2 2 0 [0, 7])) = [] \<and>
   [200, 455 :: uint64] ! unat (drop_bit 32 (0 :: uint64)) \<noteq> SquareToLinePoint 20 30"
  by (simp add: smallJob_pruned smallJob_Run small_SortWithKey small_WriteLPMapJob_Run
      small_linePoints) (simp add: smallJob_def)

subsection \<open>Second step: the scatter of the records\<close>

lemma slice_update_outside:
  "w < off \<or> off + m \<le> w \<Longrightarrow> slice (xs[w := x]) off m = slice xs off m"
  by (auto simp: slice_def drop_update_cancel drop_update_swap take_update_cancel)

lemma slice_update_head:
  assumes "w < length xs"
  shows "slice (xs[w := x]) w (Suc m) = x # slice xs (Suc w) m"
proof -
  have "drop w (xs[w := x]) = (drop w xs)[0 := x]" by (simp add: drop_update_swap)
  also have "drop w xs = xs ! w # drop (Suc w) xs" using assms by (simp add: Cons_nth_drop_Suc)
  finally show ?thesis by (simp add: slice_def)
qed

lemma filter_upt_Suc:
  "filter P [0..<Suc k] = filter P [0..<k] @ (if P k then [k] else [])"
  by simp

lemma count_prefix_le:
  "k \<le> n \<Longrightarrow> length (filter P [0..<k]) \<le> length (filter P [0..<n])"
proof -
  assume "k \<le> n"
  then have "[0..<n] = [0..<k] @ [k..<n]" by (metis le_add_diff_inverse upt_add_eq_append zero_le)
  then show ?thesis by simp
qed

lemma bucket_starts:
  fixes g :: "nat \<Rightarrow> nat"
  assumes g: "\<forall>i<n. g i < B"
  defines "start \<equiv> \<lambda>b. (\<Sum>c<b. length (filter (\<lambda>i. g i = c) [0..<n]))"
  shows "a \<le> b \<Longrightarrow> start a \<le> start b" and "start B = n"
proof -
  show "a \<le> b \<Longrightarrow> start a \<le> start b"
    unfolding start_def by (intro sum_mono2) auto
  have "\<forall>i\<in>set [0..<n]. g i < B" using g by simp
  from sum_filter_buckets[OF this] show "start B = n" by (simp add: start_def)
qed

lemma scatter_fold:
  fixes g :: "nat \<Rightarrow> nat" and r :: "nat \<Rightarrow> 'a" and pfx0 :: "uint32 list"
  assumes g: "\<forall>i<n. g i < B"
    and n: "n < 2 ^ 32"
    and len: "length pfx0 = B" "length out0 = n"
    and pfx0: "\<forall>b<B. unat (pfx0 ! b)
                 = (\<Sum>c<b. length (filter (\<lambda>i. g i = c) [0..<n])) + length (filter (\<lambda>i. g i = b) [0..<n])"
  shows "k \<le> n \<Longrightarrow>
     \<exists>pfx out. fold (\<lambda>i st. ((fst st)[g i := fst st ! g i - 1],
                                 (snd st)[unat (fst st ! g i - 1) := r i])) [0..<k] (pfx0, out0)
                  = (pfx, out) \<and>
       length pfx = B \<and> length out = n \<and>
       (\<forall>b<B. unat (pfx ! b) = (\<Sum>c<b. length (filter (\<lambda>i. g i = c) [0..<n]))
                                  + length (filter (\<lambda>i. g i = b) [0..<n])
                                  - length (filter (\<lambda>i. g i = b) [0..<k]) \<and>
               slice out ((\<Sum>c<b. length (filter (\<lambda>i. g i = c) [0..<n]))
                            + length (filter (\<lambda>i. g i = b) [0..<n])
                            - length (filter (\<lambda>i. g i = b) [0..<k]))
                     (length (filter (\<lambda>i. g i = b) [0..<k]))
                 = rev (map r (filter (\<lambda>i. g i = b) [0..<k])))"
proof (induction k)
  case 0
  then show ?case using len pfx0 by (simp add: slice_def)
next
  case (Suc k)
  define cnt where "cnt m b = length (filter (\<lambda>i. g i = b) [0..<m])" for m b
  define start where "start b = (\<Sum>c<b. cnt n c)" for b
  from Suc obtain pfx out where
    fold: "fold (\<lambda>i st. ((fst st)[g i := fst st ! g i - 1],
                                 (snd st)[unat (fst st ! g i - 1) := r i])) [0..<k] (pfx0, out0)
                  = (pfx, out)"
    and l: "length pfx = B" "length out = n"
    and inv: "\<forall>b<B. unat (pfx ! b) = start b + cnt n b - cnt k b \<and>
               slice out (start b + cnt n b - cnt k b) (cnt k b)
                 = rev (map r (filter (\<lambda>i. g i = b) [0..<k]))"
    unfolding cnt_def start_def by auto
  define b0 where "b0 = g k"
  have b0: "b0 < B" using g Suc.prems by (simp add: b0_def)
  have cntS: "cnt (Suc k) b = cnt k b + (if b = b0 then 1 else 0)" for b
    by (auto simp: cnt_def b0_def)
  have cnt_le: "cnt (Suc k) b \<le> cnt n b" for b
    unfolding cnt_def using Suc.prems by (intro count_prefix_le) simp
  have st_mono: "a \<le> b \<Longrightarrow> start a \<le> start b" for a b
    unfolding start_def by (intro sum_mono2) auto
  have st_Suc: "start (Suc b) = start b + cnt n b" for b by (simp add: start_def)
  have st_B: "start B = n"
    using bucket_starts(2)[OF g] by (simp add: start_def cnt_def)
  have st_le: "start b + cnt n b \<le> n" if "b < B" for b
    using st_mono[of "Suc b" B] that st_Suc[of b] st_B by simp
  define w where "w = start b0 + cnt n b0 - cnt k b0 - 1"
  have pos: "cnt k b0 < cnt n b0" using cnt_le[of b0] cntS[of b0] by simp
  have u0: "unat (pfx ! b0) = start b0 + cnt n b0 - cnt k b0" using inv b0 by simp
  have "1 \<le> unat (pfx ! b0)" using u0 pos by simp
  then have uw: "unat (pfx ! b0 - 1) = w"
    using u0 by (simp add: w_def unat_sub word_le_nat_alt)
  have wn: "w < n" using st_le[OF b0] pos by (simp add: w_def)
  define pfx' where "pfx' = pfx[b0 := pfx ! b0 - 1]"
  define out' where "out' = out[w := r k]"
  have fold': "fold (\<lambda>i st. ((fst st)[g i := fst st ! g i - 1],
                                 (snd st)[unat (fst st ! g i - 1) := r i])) [0..<Suc k] (pfx0, out0)
                  = (pfx', out')"
    using fold uw by (simp add: pfx'_def out'_def b0_def)
  have inv': "unat (pfx' ! b) = start b + cnt n b - cnt (Suc k) b \<and>
               slice out' (start b + cnt n b - cnt (Suc k) b) (cnt (Suc k) b)
                 = rev (map r (filter (\<lambda>i. g i = b) [0..<Suc k]))" if b: "b < B" for b
  proof (cases "b = b0")
    case True
    have 1: "unat (pfx' ! b) = start b + cnt n b - cnt (Suc k) b"
      using True b l uw by (simp add: pfx'_def cntS w_def)
    have "slice out' w (Suc (cnt k b0)) = r k # slice out (Suc w) (cnt k b0)"
      unfolding out'_def using wn l by (intro slice_update_head) simp
    moreover have "Suc w = start b0 + cnt n b0 - cnt k b0" using pos by (simp add: w_def)
    ultimately have "slice out' w (Suc (cnt k b0)) = r k # rev (map r (filter (\<lambda>i. g i = b0) [0..<k]))"
      using inv b0 by simp
    moreover have "start b + cnt n b - cnt (Suc k) b = w" using True by (simp add: cntS w_def)
    ultimately show ?thesis using 1 True by (simp add: cntS b0_def)
  next
    case False
    have 1: "unat (pfx' ! b) = start b + cnt n b - cnt (Suc k) b"
      using False b l inv by (simp add: pfx'_def cntS)
    have ck: "cnt k b \<le> cnt n b" using cnt_le[of b] cntS[of b] by simp
    have out: "w < start b + cnt n b - cnt k b \<or> start b + cnt n b - cnt k b + cnt k b \<le> w"
    proof (cases "b0 < b")
      case True
      then have "start (Suc b0) \<le> start b" by (intro st_mono) simp
      then have "w < start b" using pos by (simp add: st_Suc w_def)
      then show ?thesis using ck by simp
    next
      case False
      with \<open>b \<noteq> b0\<close> have "start (Suc b) \<le> start b0" by (intro st_mono) simp
      then have "start b + cnt n b \<le> w" using pos by (simp add: st_Suc w_def)
      then show ?thesis using ck by simp
    qed
    have "slice out' (start b + cnt n b - cnt k b) (cnt k b)
            = slice out (start b + cnt n b - cnt k b) (cnt k b)"
      unfolding out'_def by (rule slice_update_outside[OF out])
    then show ?thesis using 1 False inv b by (simp add: cntS) (simp add: b0_def)
  qed
  show ?case
    using fold' inv' l unfolding cnt_def start_def by (simp add: pfx'_def out'_def)
qed

lemma writeMapStep_single:
  "writeMapStep (Suc 0) n eo inKey 0 =
     (\<lambda>i st. ((fst st)[mapBucket (inKey ! i) := fst st ! mapBucket (inKey ! i) - 1],
               (snd st)[unat (fst st ! mapBucket (inKey ! i) - 1)
                          := push_bit 32 (eo + of_nat i) OR ucast (inKey ! i)]))"
  by (intro ext) (simp add: writeMapStep_def mapRecord_def JobOffset_def Let_def split: prod.splits)

lemma mapCounts_single:
  "b < BB_DP_BUCKET_COUNT \<Longrightarrow>
     mapCounts (Suc 0) n inKey 0 ! b = of_nat (length (filter (\<lambda>i. mapBucket (inKey ! i) = b) [0..<n]))"
  by (simp add: mapCounts_def JobEntries_def fold_countUp_nth)

lemma length_mapCounts [simp]: "length (mapCounts T n inKey j) = BB_DP_BUCKET_COUNT"
  by (simp add: mapCounts_def)

lemma totals_single:
  "snd (WriteLPMapJob_Run (Suc 0) n eo inKey)
     = map (\<lambda>b. of_nat (length (filter (\<lambda>i. mapBucket (inKey ! i) = b) [0..<n])))
         [0..<BB_DP_BUCKET_COUNT]"
  by (simp add: WriteLPMapJob_Run_def Let_def bucketTotals_def mapCounts_single)

lemma sum_take_totals:
  "b \<le> B \<Longrightarrow> sum_list (take b (map (\<lambda>c. (of_nat (f c) :: uint32)) [0..<B])) = of_nat (\<Sum>c<b. f c)"
  by (simp add: take_map of_nat_sum_list_word sum_list_upt_sum)

lemma WriteLPMapJob_Run_single:
  assumes n: "n < 2 ^ 32" and b: "b < BB_DP_BUCKET_COUNT"
  shows "slice (fst (WriteLPMapJob_Run (Suc 0) n eo inKey))
           (\<Sum>c<b. length (filter (\<lambda>i. mapBucket (inKey ! i) = c) [0..<n]))
           (length (filter (\<lambda>i. mapBucket (inKey ! i) = b) [0..<n]))
         = rev (map (\<lambda>i. push_bit 32 (eo + of_nat i) OR ucast (inKey ! i))
                 (filter (\<lambda>i. mapBucket (inKey ! i) = b) [0..<n]))"
proof -
  let ?g = "\<lambda>i. mapBucket (inKey ! i)"
  let ?B = BB_DP_BUCKET_COUNT
  define cnt where "cnt c = length (filter (\<lambda>i. ?g i = c) [0..<n])" for c
  define pfx0 where "pfx0 = CalculatePrefixSum ?B [mapCounts (Suc 0) n inKey 0] 0"
  have g: "\<forall>i<n. ?g i < ?B" by (simp add: mapBucket_less)
  have le: "(\<Sum>c<c0. cnt c) + cnt c0 \<le> n" if "c0 < ?B" for c0
  proof -
    have "(\<Sum>c<Suc c0. cnt c) \<le> (\<Sum>c<?B. cnt c)" using that by (intro sum_mono2) auto
    then show ?thesis using bucket_starts(2)[OF g] by (simp add: cnt_def)
  qed
  have tot: "bucketTotals ?B [mapCounts (Suc 0) n inKey 0] = map (\<lambda>c. of_nat (cnt c)) [0..<?B]"
    by (simp add: bucketTotals_def mapCounts_single cnt_def)
  have p0: "unat (pfx0 ! c0) = (\<Sum>c<c0. cnt c) + cnt c0" if c0: "c0 < ?B" for c0
  proof -
    define N where "N = (\<Sum>c<c0. cnt c) + cnt c0"
    have "pfx0 ! c0 = of_nat N"
      using c0 by (simp add: N_def pfx0_def CalculatePrefixSum_def tot sum_take_totals mapCounts_single cnt_def)
    moreover have "N < 2 ^ 32" using le[OF c0] n by (simp add: N_def)
    ultimately have "unat (pfx0 ! c0) = N" by (simp add: unat_of_nat)
    then show ?thesis by (simp add: N_def)
  qed
  have l: "length pfx0 = ?B" "length (GetBuffer n :: uint64 list) = n"
    by (simp_all add: pfx0_def CalculatePrefixSum_def GetBuffer_def)
  from scatter_fold[where g = ?g and B = ?B and n = n and k = n and ?pfx0.0 = pfx0
      and ?out0.0 = "GetBuffer n :: uint64 list"
      and r = "\<lambda>i. push_bit 32 (eo + of_nat i) OR ucast (inKey ! i)",
      OF g n l] p0
  obtain pfx out where
    f: "fold (writeMapStep (Suc 0) n eo inKey 0) [0..<n] (pfx0, GetBuffer n) = (pfx, out)"
    and s: "\<forall>b<?B. slice out ((\<Sum>c<b. cnt c) + cnt b - cnt b) (cnt b)
                 = rev (map (\<lambda>i. push_bit 32 (eo + of_nat i) OR ucast (inKey ! i))
                         (filter (\<lambda>i. ?g i = b) [0..<n]))"
    unfolding writeMapStep_single cnt_def by auto
  have "fst (WriteLPMapJob_Run (Suc 0) n eo inKey) = out"
    using f by (simp add: WriteLPMapJob_Run_def Let_def writeMap_def JobEntries_def pfx0_def)
  then show ?thesis using s b by (simp add: cnt_def)
qed

lemma unat_byte_size:
  assumes "c < 2 ^ 29"
  shows "unat ((of_nat c :: uint32) * 8) div 8 = c"
proof -
  have "(of_nat c :: uint32) * 8 = of_nat (c * 8)" by simp
  moreover have "c * 8 < 2 ^ 32" using assms by simp
  ultimately have "unat ((of_nat c :: uint32) * 8) = c * 8"
    by (simp only: unat_of_nat) simp
  then show ?thesis by simp
qed

lemma WriteLPReverseLookup_rPrunedMap [simp]:
  "rPrunedMap (WriteLPReverseLookup rTable key b n eo s) = rPrunedMap s"
  "length (lMapBucketCounts (WriteLPReverseLookup rTable key b n eo s)) = BB_DP_BUCKET_COUNT"
  by (simp_all add: WriteLPReverseLookup_def Let_def)

lemma length_WriteLPMapJob_totals [simp]:
  "length (snd (WriteLPMapJob_Run T n eo inKey)) = BB_DP_BUCKET_COUNT"
  by (simp add: WriteLPMapJob_Run_def Let_def)

lemma WriteLPReverseLookup_beyond:
  "BB_DP_BUCKET_COUNT \<le> m \<Longrightarrow>
     files (ioQueue (WriteLPReverseLookup rTable key b n eo s)) (LP_MAP rTable) m
       = files (ioQueue s) (LP_MAP rTable) m"
  by (simp add: WriteLPReverseLookup_def Let_def WriteBuckets_def)

lemma WriteLPReverseLookup_single:
  assumes T: "threadCount s = Suc 0" and n: "unat n < 2 ^ 29" and m: "m < BB_DP_BUCKET_COUNT"
  shows "files (ioQueue (WriteLPReverseLookup rTable key b n eo s)) (LP_MAP rTable) m
       = write_at (files (ioQueue s) (LP_MAP rTable) m) (positions (ioQueue s) (LP_MAP rTable) m)
           (rev (map (\<lambda>i. push_bit 32 (eo + of_nat i) OR ucast (key ! i))
                  (filter (\<lambda>i. mapBucket (key ! i) = m) [0..<unat n])))"
proof -
  let ?B = BB_DP_BUCKET_COUNT
  define cnt where "cnt c = length (filter (\<lambda>i. mapBucket (key ! i) = c) [0..<unat n])" for c
  have small: "cnt c < 2 ^ 29" for c
  proof -
    have "cnt c \<le> length [0..<unat n]" unfolding cnt_def by (rule length_filter_le)
    then show ?thesis using n by simp
  qed
  have sizes: "map (\<lambda>c. unat (c * 8) div 8) (snd (WriteLPMapJob_Run (Suc 0) (unat n) eo key))
             = map cnt [0..<?B]"
    by (simp add: totals_single cnt_def[symmetric] unat_byte_size[OF small] comp_def)
  have starts: "sum_list (take m (map cnt [0..<?B])) = (\<Sum>c<m. cnt c)"
    using m by (simp add: take_map sum_list_upt_sum)
  have n32: "unat n < 2 ^ 32" by (rule unat_lt_32)
  show ?thesis
    using m WriteLPMapJob_Run_single[OF n32 m, of eo key]
    by (simp add: WriteLPReverseLookup_def Let_def T sizes WriteBuckets_def starts cnt_def)
qed

subsection \<open>Second step: the entry offset and the records of a bucket\<close>

lemma lpEntriesBefore_Suc:
  "lpEntriesBefore s (Suc b) = lpEntriesBefore s b + unat (lpBucketCounts s ! b)"
  by (simp add: lpEntriesBefore_def)

lemma lpEntriesBefore_bound: "lpEntriesBefore s b \<le> b * 2 ^ 32"
proof (induction b)
  case 0
  then show ?case by (simp add: lpEntriesBefore_def)
next
  case (Suc b)
  have "unat (lpBucketCounts s ! b) < 2 ^ 32" by (rule unat_lt_32)
  then show ?case using Suc by (simp add: lpEntriesBefore_Suc)
qed

lemma LoadBucket2_files [simp]:
  "files (ioQueue (snd (LoadBucket2 rTable b s))) = files (ioQueue s)"
  "positions (ioQueue (snd (LoadBucket2 rTable b s))) (LP_MAP t) m = positions (ioQueue s) (LP_MAP t) m"
  by (simp_all add: LoadBucket2_def Let_def SignalFence_def)

lemma length_SortWithKey [simp]: "length (snd (SortWithKey lps keys n)) = n"
  by (simp add: SortWithKey_def Let_def)

lemma TableSecondStep_secondStepAt:
  "TableSecondStep rTable s =
     (case secondStepAt rTable s BB_DPP3_LP_BUCKET_COUNT of
        Returns st \<Rightarrow> Returns (snd (snd st))
      | WaitsForever i st \<Rightarrow> WaitsForever i (snd (snd st)))"
  by (simp add: TableSecondStep_def secondStepAt_def Let_def)

lemma secondStepBucket_pass:
  assumes b: "b < BB_DPP3_LP_BUCKET_COUNT" and inv: "entryOffsetInv s b (eo, bufs, s1)"
  shows "\<exists>bufs' s2.
      secondStepBucket rTable b (eo, bufs, s1)
        = Returns (eo + ucast (lpBucketCounts s ! b), bufs',
                   WriteLPReverseLookup rTable (rPrunedMap s2) b (lpBucketCounts s ! b) eo s2) \<and>
      rPrunedMap s2 = blit (rPrunedMap s1) 0
         (snd (SortWithKey (fst (bufs b)) (snd (bufs b)) (unat (lpBucketCounts s ! b)))) \<and>
      threadCount s2 = threadCount s \<and>
      lpBucketCounts s2 = lpBucketCounts s \<and>
      readFence s2 = MapLoaded + (min (Suc b) (BB_DPP3_LP_BUCKET_COUNT - 1)) * FENCE_COUNT \<and>
      files (ioQueue s2) = files (ioQueue s1) \<and>
      (\<forall>m. positions (ioQueue s2) (LP_MAP rTable) m = positions (ioQueue s1) (LP_MAP rTable) m)"
proof -
  define s1' where "s1' = (if b \<noteq> BB_DPP3_LP_BUCKET_COUNT - 1 then snd (LoadBucket2 rTable (b + 1) s1) else s1)"
  define bufs' where "bufs' = (if b \<noteq> BB_DPP3_LP_BUCKET_COUNT - 1
      then bufs(b + 1 := fst (LoadBucket2 rTable (b + 1) s1)) else bufs)"
  define n where "n = lpBucketCounts s ! b"
  have bm: "min b (BB_DPP3_LP_BUCKET_COUNT - 1) = b" using b by simp
  from inv bm have i0: "readFence s1 = MapLoaded + b * FENCE_COUNT" "threadCount s1 = threadCount s"
    "lpBucketCounts s1 = lpBucketCounts s"
    by (simp_all add: entryOffsetInv_def)
  have i1: "readFence s1' = MapLoaded + (min (Suc b) (BB_DPP3_LP_BUCKET_COUNT - 1)) * FENCE_COUNT"
    "threadCount s1' = threadCount s" "lpBucketCounts s1' = lpBucketCounts s"
    "rPrunedMap s1' = rPrunedMap s1" "files (ioQueue s1') = files (ioQueue s1)"
    "\<And>m. positions (ioQueue s1') (LP_MAP rTable) m = positions (ioQueue s1) (LP_MAP rTable) m"
    using i0 b by (auto simp: s1'_def min_def)
  have fence: "\<not> readFence s1' < MapLoaded + b * FENCE_COUNT" using i1 b by (auto simp: min_def)
  have same: "bufs' b = bufs b" by (simp add: bufs'_def)
  define sorted where "sorted = SortWithKey (fst (bufs b)) (snd (bufs b)) (unat n)"
  define s2 where "s2 = s1'\<lparr>linePoints := blit (linePoints s1') 0 (fst sorted),
                           rPrunedMap := blit (rPrunedMap s1') 0 (snd sorted)\<rparr>"
  have "secondStepBucket rTable b (eo, bufs, s1)
          = Returns (eo + ucast n, bufs', WriteLPReverseLookup rTable (rPrunedMap s2) b n eo s2)"
    using fence i0(3) i1(3) same[symmetric]
    unfolding s2_def sorted_def bufs'_def n_def s1'_def
    by (cases "b = BB_DPP3_LP_BUCKET_COUNT - 1") (simp_all add: secondStepBucket_def Let_def)
  moreover have "rPrunedMap s2 = blit (rPrunedMap s1) 0 (snd sorted)"
    "threadCount s2 = threadCount s" "lpBucketCounts s2 = lpBucketCounts s"
    "readFence s2 = MapLoaded + (min (Suc b) (BB_DPP3_LP_BUCKET_COUNT - 1)) * FENCE_COUNT"
    "files (ioQueue s2) = files (ioQueue s1)"
    "\<forall>m. positions (ioQueue s2) (LP_MAP rTable) m = positions (ioQueue s1) (LP_MAP rTable) m"
    using i1 by (simp_all add: s2_def)
  ultimately show ?thesis unfolding sorted_def n_def by blast
qed

lemma entryOffsetInv_step:
  assumes b: "b < BB_DPP3_LP_BUCKET_COUNT" and inv: "entryOffsetInv s b st"
  shows "\<exists>st'. secondStepBucket rTable b st = Returns st' \<and> entryOffsetInv s (Suc b) st'"
proof -
  obtain eo bufs s1 where st: "st = (eo, bufs, s1)" by (cases st)
  from secondStepBucket_pass[OF b inv[unfolded st], of rTable]
  obtain bufs' s2 where p:
    "secondStepBucket rTable b (eo, bufs, s1)
        = Returns (eo + ucast (lpBucketCounts s ! b), bufs',
                   WriteLPReverseLookup rTable (rPrunedMap s2) b (lpBucketCounts s ! b) eo s2)"
    "rPrunedMap s2 = blit (rPrunedMap s1) 0
         (snd (SortWithKey (fst (bufs b)) (snd (bufs b)) (unat (lpBucketCounts s ! b))))"
    "threadCount s2 = threadCount s" "lpBucketCounts s2 = lpBucketCounts s"
    "readFence s2 = MapLoaded + (min (Suc b) (BB_DPP3_LP_BUCKET_COUNT - 1)) * FENCE_COUNT"
    by blast
  have "eo = of_nat (lpEntriesBefore s b)" "length (rPrunedMap s1) = length (rPrunedMap s)"
    using inv st by (simp_all add: entryOffsetInv_def)
  then have "entryOffsetInv s (Suc b)
      (eo + ucast (lpBucketCounts s ! b), bufs',
       WriteLPReverseLookup rTable (rPrunedMap s2) b (lpBucketCounts s ! b) eo s2)"
    using p(2-5) by (simp add: entryOffsetInv_def lpEntriesBefore_Suc)
  with p(1) st show ?thesis by blast
qed

lemma secondStepAt_entryOffset:
  assumes "b \<le> BB_DPP3_LP_BUCKET_COUNT"
  shows "\<exists>st. secondStepAt rTable s b = Returns st \<and> entryOffsetInv s b st"
proof -
  define s0 where "s0 = s\<lparr>readFence := 0,
                 ioQueue := SeekBucket (LP_KEY rTable) (SeekBucket (LP rTable) (ioQueue s))\<rparr>"
  define st0 where "st0 = (0 :: uint64, (\<lambda>b::nat. ([], []))(0 := fst (LoadBucket2 rTable 0 s0)),
                           snd (LoadBucket2 rTable 0 s0))"
  have init: "entryOffsetInv s 0 st0"
    by (simp add: entryOffsetInv_def st0_def lpEntriesBefore_def s0_def)
  from forBuckets_invariant[where I = "entryOffsetInv s" and body = "secondStepBucket rTable"
      and n = BB_DPP3_LP_BUCKET_COUNT and m = b, OF entryOffsetInv_step assms init]
  show ?thesis
    by (simp add: secondStepAt_def Let_def s0_def[symmetric] st0_def[symmetric])
qed

lemma mapBucket_top: "mapBucket 4294967295 = 63"
  by code_simp

lemma Table2_emptyPhase [simp]:
  "threadCount emptyPhase = Suc 0"
  "files (ioQueue emptyPhase) f m = []"
  "positions (ioQueue emptyPhase) f m = 0"
  by (simp_all add: emptyPhase_def emptyQueue_def)

text \<open>
  The number of reverse-map buckets is \<open>BB_DP_BUCKET_COUNT = 2 ^ kExtraBits = 64\<close>, not 128:
  the key with the largest selector, \<open>0xFFFFFFFF\<close>, is routed to bucket 63, the array of
  bucket counts has 64 entries, and bucket 127 receives nothing.
\<close>

theorem last_reverse_map_bucket_is_63:
  "BB_DP_BUCKET_COUNT = 64 \<and>
   mapBucket 4294967295 = 63 \<and>
   length (lMapBucketCounts (WriteLPReverseLookup Table2 [4294967295] 0 1 0 emptyPhase)) = 64 \<and>
   files (ioQueue (WriteLPReverseLookup Table2 [4294967295] 0 1 0 emptyPhase)) (LP_MAP Table2) 63
     = [4294967295] \<and>
   files (ioQueue (WriteLPReverseLookup Table2 [4294967295] 0 1 0 emptyPhase)) (LP_MAP Table2) 127
     = []"
proof -
  have 1: "unat (1 :: uint32) < 2 ^ 29" by simp
  have 2: "(63 :: nat) < BB_DP_BUCKET_COUNT" "BB_DP_BUCKET_COUNT \<le> (127 :: nat)"
    by (simp_all add: BB_DP_BUCKET_COUNT_val)
  show ?thesis
    using WriteLPReverseLookup_single[OF Table2_emptyPhase(1) 1 2(1), of Table2 "[4294967295]" 0 0]
      WriteLPReverseLookup_beyond[OF 2(2), of Table2 "[4294967295]" 0 1 0 emptyPhase]
    by (simp add: BB_DP_BUCKET_COUNT_val mapBucket_top write_at_def)
qed

text \<open>
  Claim C4, amended. On one thread, with a key buffer that holds the bucket, and a bucket
  of less than \<open>2 ^ 29\<close> entries (so that the byte sizes fit \<open>uint32\<close>): the loop of the
  second step reaches line point bucket \<open>b\<close> with \<open>entryOffset\<close> equal to the sum of the
  lengths of the earlier line point buckets, and the pass of bucket \<open>b\<close> returns, adds the
  bucket's length to \<open>entryOffset\<close>, leaves the sorted keys in the key buffer, and appends to
  each reverse-map bucket \<open>m\<close> of the \<open>2 ^ kExtraBits\<close> buckets exactly the records
  \<open>((entryOffset + i) << 32) | key[i]\<close> of the positions \<open>i\<close> whose key selects \<open>m\<close> by
  \<open>key >> (32 - kExtraBits)\<close>, the last position first.
\<close>

theorem reverse_map_records:
  assumes T: "threadCount s = 1"
    and b: "b < BB_DPP3_LP_BUCKET_COUNT"
    and n: "unat (lpBucketCounts s ! b) < 2 ^ 29"
    and buf: "unat (lpBucketCounts s ! b) \<le> length (rPrunedMap s)"
    and m: "m < BB_DP_BUCKET_COUNT"
  shows "\<exists>entryOffset buffers s1 entryOffset' buffers' s2.
     secondStepAt rTable s b = Returns (entryOffset, buffers, s1) \<and>
     unat entryOffset = lpEntriesBefore s b \<and>
     secondStepBucket rTable b (entryOffset, buffers, s1) = Returns (entryOffset', buffers', s2) \<and>
     entryOffset' = entryOffset + ucast (lpBucketCounts s ! b) \<and>
     take (unat (lpBucketCounts s ! b)) (rPrunedMap s2)
       = snd (SortWithKey (fst (buffers b)) (snd (buffers b)) (unat (lpBucketCounts s ! b))) \<and>
     length (lMapBucketCounts s2) = 2 ^ kExtraBits \<and>
     files (ioQueue s2) (LP_MAP rTable) m
       = write_at (files (ioQueue s1) (LP_MAP rTable) m) (positions (ioQueue s1) (LP_MAP rTable) m)
           (rev (map (\<lambda>i. push_bit 32 (entryOffset + of_nat i) OR ucast (rPrunedMap s2 ! i))
                  (filter (\<lambda>i. mapBucket (rPrunedMap s2 ! i) = m)
                     [0..<unat (lpBucketCounts s ! b)])))"
proof -
  let ?n = "lpBucketCounts s ! b"
  from secondStepAt_entryOffset[of b rTable s] b
  obtain eo bufs s1 where at: "secondStepAt rTable s b = Returns (eo, bufs, s1)"
    and inv: "entryOffsetInv s b (eo, bufs, s1)"
    by (metis less_imp_le prod_cases3)
  have eo: "eo = of_nat (lpEntriesBefore s b)" and len: "length (rPrunedMap s1) = length (rPrunedMap s)"
    using inv by (simp_all add: entryOffsetInv_def)
  have "lpEntriesBefore s b \<le> b * 2 ^ 32" by (rule lpEntriesBefore_bound)
  also have "\<dots> < 2 ^ 64" using b by (simp add: BB_DPP3_LP_BUCKET_COUNT_def)
  finally have ueo: "unat eo = lpEntriesBefore s b" by (simp add: eo unat_of_nat)
  from secondStepBucket_pass[OF b inv, of rTable]
  obtain bufs' s2 where p:
    "secondStepBucket rTable b (eo, bufs, s1)
        = Returns (eo + ucast ?n, bufs', WriteLPReverseLookup rTable (rPrunedMap s2) b ?n eo s2)"
    "rPrunedMap s2 = blit (rPrunedMap s1) 0 (snd (SortWithKey (fst (bufs b)) (snd (bufs b)) (unat ?n)))"
    "threadCount s2 = threadCount s"
    "files (ioQueue s2) = files (ioQueue s1)"
    "\<forall>m. positions (ioQueue s2) (LP_MAP rTable) m = positions (ioQueue s1) (LP_MAP rTable) m"
    by blast
  define s3 where "s3 = WriteLPReverseLookup rTable (rPrunedMap s2) b ?n eo s2"
  have T2: "threadCount s2 = Suc 0" using p(3) T by simp
  have keys: "take (unat ?n) (rPrunedMap s3)
       = snd (SortWithKey (fst (bufs b)) (snd (bufs b)) (unat ?n))"
    using take_blit_0[of "snd (SortWithKey (fst (bufs b)) (snd (bufs b)) (unat ?n))" "rPrunedMap s1"]
      buf len by (simp add: s3_def p(2))
  have count: "length (lMapBucketCounts s3) = 2 ^ kExtraBits"
    by (simp add: s3_def BB_DP_BUCKET_COUNT_def)
  have recs: "files (ioQueue s3) (LP_MAP rTable) m
       = write_at (files (ioQueue s1) (LP_MAP rTable) m) (positions (ioQueue s1) (LP_MAP rTable) m)
           (rev (map (\<lambda>i. push_bit 32 (eo + of_nat i) OR ucast (rPrunedMap s3 ! i))
                  (filter (\<lambda>i. mapBucket (rPrunedMap s3 ! i) = m) [0..<unat ?n])))"
    using WriteLPReverseLookup_single[OF T2 n m, of rTable "rPrunedMap s2" b eo] p(4,5)
    by (simp add: s3_def)
  from at ueo p(1) keys count recs show ?thesis unfolding s3_def by blast
qed

text \<open>The theorem at bucket 1 of a table with two line points in bucket 0.\<close>

theorem reverse_map_records_witness:
  "threadCount sortedPhase = 1 \<and>
   (1 :: nat) < BB_DPP3_LP_BUCKET_COUNT \<and>
   unat (lpBucketCounts sortedPhase ! 1) < 2 ^ 29 \<and>
   unat (lpBucketCounts sortedPhase ! 1) \<le> length (rPrunedMap sortedPhase) \<and>
   (0 :: nat) < BB_DP_BUCKET_COUNT \<and>
   lpEntriesBefore sortedPhase 1 = 2 \<and>
   (\<exists>entryOffset buffers s1 entryOffset' buffers' s2.
     secondStepAt Table2 sortedPhase 1 = Returns (entryOffset, buffers, s1) \<and>
     unat entryOffset = lpEntriesBefore sortedPhase 1 \<and>
     secondStepBucket Table2 1 (entryOffset, buffers, s1) = Returns (entryOffset', buffers', s2) \<and>
     entryOffset' = entryOffset + ucast (lpBucketCounts sortedPhase ! 1) \<and>
     take (unat (lpBucketCounts sortedPhase ! 1)) (rPrunedMap s2)
       = snd (SortWithKey (fst (buffers 1)) (snd (buffers 1)) (unat (lpBucketCounts sortedPhase ! 1))) \<and>
     length (lMapBucketCounts s2) = 2 ^ kExtraBits \<and>
     files (ioQueue s2) (LP_MAP Table2) 0
       = write_at (files (ioQueue s1) (LP_MAP Table2) 0) (positions (ioQueue s1) (LP_MAP Table2) 0)
           (rev (map (\<lambda>i. push_bit 32 (entryOffset + of_nat i) OR ucast (rPrunedMap s2 ! i))
                  (filter (\<lambda>i. mapBucket (rPrunedMap s2 ! i) = 0)
                     [0..<unat (lpBucketCounts sortedPhase ! 1)]))))"
proof -
  have 1: "threadCount sortedPhase = 1" by (simp add: sortedPhase_def emptyPhase_def)
  have 2: "(1 :: nat) < BB_DPP3_LP_BUCKET_COUNT" by (simp add: BB_DPP3_LP_BUCKET_COUNT_def)
  have 3: "unat (lpBucketCounts sortedPhase ! 1) < 2 ^ 29" by (simp add: sortedPhase_def)
  have 4: "unat (lpBucketCounts sortedPhase ! 1) \<le> length (rPrunedMap sortedPhase)"
    by (simp add: sortedPhase_def)
  have 5: "(0 :: nat) < BB_DP_BUCKET_COUNT" by (simp add: BB_DP_BUCKET_COUNT_val)
  have 6: "lpEntriesBefore sortedPhase 1 = 2" by (simp add: lpEntriesBefore_def sortedPhase_def)
  from reverse_map_records[OF 1 2 3 4 5, of Table2] 1 2 3 4 5 6 show ?thesis by blast
qed

subsection \<open>Third step: the passes that are reached\<close>

lemma steps_Some_length:
  assumes "\<And>i s s'. f i s = Some s' \<Longrightarrow> P s' = P s"
  shows "steps f xs s = Some s' \<Longrightarrow> P s' = P s"
proof (induction xs arbitrary: s)
  case Nil
  then show ?case by simp
next
  case (Cons x xs)
  then show ?case using assms by (auto split: option.splits)
qed

lemma unpackStore_length: "unpackStore bucket m dst = Some dst' \<Longrightarrow> length dst' = length dst"
  by (auto simp: unpackStore_def Let_def split: if_splits)

lemma LPUnpackMapJob_Run_length:
  "LPUnpackMapJob_Run T bucket n mapSrc j dst = Some dst' \<Longrightarrow> length dst' = length dst"
  unfolding LPUnpackMapJob_Run_def
  by (rule steps_Some_length[where P = length]) (auto dest: unpackStore_length split: if_splits)

lemma LPUnpackMapJob_RunJob_length:
  "LPUnpackMapJob_RunJob T bucket n mapSrc dst = Some dst' \<Longrightarrow> length dst' = length dst"
  unfolding LPUnpackMapJob_RunJob_def
  by (rule steps_Some_length[where P = length]) (auto dest: LPUnpackMapJob_Run_length)

lemma length_unpacked [simp]:
  "length (case LPUnpackMapJob_RunJob T bucket n mapSrc dst of Some d \<Rightarrow> d | None \<Rightarrow> dst) = length dst"
  by (auto split: option.splits dest: LPUnpackMapJob_RunJob_length)

lemma TableThirdStep_blocks:
  "\<exists>s'. TableThirdStep rTable s = WaitsForever 2 s' \<and>
     entryCounts s' = entryCounts s \<and>
     prunedEntryCount s' = prunedEntryCount s \<and>
     commands (ioQueue s')
       = commands (ioQueue s)
         @ [SeekBucketCmd (LP_MAP rTable),
            ReadFileCmd (LP_MAP rTable) 0 B_loan 0 (unat (lMapBucketCounts s ! 0)),
            SignalFenceCmd 1,
            SeekFileCmd (LP_MAP rTable) 0,
            WriteFileCmd (LP_MAP rTable) 0 (2 ^ 26)]"
  by (simp add: TableThirdStep_def BB_DP_BUCKET_COUNT_val upt_64 thirdStepBucket_def
      LoadBucket3_def Let_def SignalFence_def SignalFenceQ_def ReadFile_def SeekFile_def
      SeekBucket_def WriteFile_def writeEntryCount_def fixedBucketLength_val GetBuffer_def)

lemma unpackPhase_simps:
  "threadCount unpackPhase = Suc 0"
  "lMapBucketCounts unpackPhase ! 0 = 1"
  "lMapBucketCounts unpackPhase ! Suc 0 = 1"
  "entryCounts unpackPhase t = 4294967000"
  "commands (ioQueue unpackPhase) = []"
  "files (ioQueue unpackPhase) (LP_MAP Table2) 0 = [21474836483]"
  "files (ioQueue unpackPhase) (LP_MAP Table2) (Suc 0) = [38721814532]"
  by (simp_all add: unpackPhase_def unpackQueue_def emptyPhase_def)

lemma length_GetBuffer [simp]: "length (GetBuffer n) = n"
  by (simp add: GetBuffer_def)

lemma GetBuffer_1: "GetBuffer (Suc 0) = [0]"
  by (simp add: GetBuffer_def)

lemma unpack_bucket_0:
  "LPUnpackMapJob_RunJob (Suc 0) 0 (Suc 0) [21474836483] (GetBuffer 67108864)
     = Some ((GetBuffer 67108864)[3 := 5])"
  by (simp add: LPUnpackMapJob_RunJob_def LPUnpackMapJob_Run_def JobEntries_def JobOffset_def
      unpackStore_def unpackIndex_def Let_def GetBuffer_def drop_bit_eq_div)

lemma unpack_record_1:
  "unat (unpackIndex 1 38721814532) = 4" "(ucast (drop_bit 32 (38721814532 :: uint64)) :: uint32) = 9"
  by (simp_all add: unpackIndex_def fixedBucketLength_val drop_bit_eq_div)

lemma third_step_unpackPhase:
  "\<exists>s'. TableThirdStep Table2 unpackPhase = WaitsForever 2 s' \<and>
     files (ioQueue s') (LP_MAP Table2) 0 = map ucast ((GetBuffer 67108864 :: uint32 list)[3 := 5]) \<and>
     files (ioQueue s') (LP_MAP Table2) 1 = [38721814532] \<and>
     commands (ioQueue s')
       = [SeekBucketCmd (LP_MAP Table2),
          ReadFileCmd (LP_MAP Table2) 0 B_loan 0 1,
          SignalFenceCmd 1,
          SeekFileCmd (LP_MAP Table2) 0,
          WriteFileCmd (LP_MAP Table2) 0 67108864]"
  by (simp add: TableThirdStep_def BB_DP_BUCKET_COUNT_val upt_64 thirdStepBucket_def
      LoadBucket3_def Let_def SignalFence_def SignalFenceQ_def ReadFile_def SeekFile_def
      SeekBucket_def WriteFile_def writeEntryCount_def fixedBucketLength_val
      unpackPhase_simps fileData_def slice_def blit_def GetBuffer_1 unpack_bucket_0 write_at_def)

text \<open>
  Claim C7. The claim asks, for every record of every reverse-map bucket, for a store of
  the record's high half at index \<open>(uint32) record - bucketBase\<close> of the bucket's dense
  output. At a table with one record in bucket 0 and one in bucket 1, on one thread: the
  job of bucket 0 stores the sorted position 5 at index 3, and the step writes the dense
  output of bucket 0, \<open>2 ^ 26\<close> entries. The record of bucket 1 names index 4 of its
  bucket and carries the sorted position 9, but the step blocks in \<open>Wait (2)\<close> before the
  pass of bucket 1: the record stays packed in bucket 1 of the map file, and the write of
  bucket 0 is the only write that is issued.
\<close>

theorem bucket_1_is_never_unpacked:
  "LPUnpackMapJob_RunJob 1 0 1 [21474836483] (GetBuffer 67108864)
     = Some ((GetBuffer 67108864)[3 := 5]) \<and>
   unat (unpackIndex 1 38721814532) = 4 \<and>
   (ucast (drop_bit 32 (38721814532 :: uint64)) :: uint32) = 9 \<and>
   (\<exists>s'. TableThirdStep Table2 unpackPhase = WaitsForever 2 s' \<and>
      files (ioQueue s') (LP_MAP Table2) 0
        = map ucast ((GetBuffer 67108864 :: uint32 list)[3 := 5]) \<and>
      files (ioQueue s') (LP_MAP Table2) 1 = [38721814532] \<and>
      commands (ioQueue s')
        = [SeekBucketCmd (LP_MAP Table2),
           ReadFileCmd (LP_MAP Table2) 0 B_loan 0 1,
           SignalFenceCmd 1,
           SeekFileCmd (LP_MAP Table2) 0,
           WriteFileCmd (LP_MAP Table2) 0 67108864])"
  using unpack_bucket_0 unpack_record_1 third_step_unpackPhase by simp

lemma ProcessTable_third:
  assumes "TableFirstStep rTable (resetTable s) = Returns s1" "TableSecondStep rTable s1 = Returns s2"
  shows "ProcessTable rTable s =
           (case TableThirdStep rTable s2 of
              Returns s3 \<Rightarrow> Returns (s3\<lparr>entryCounts := (entryCounts s3)(rTable := prunedEntryCount s3)\<rparr>)
            | WaitsForever i s3 \<Rightarrow> WaitsForever i s3)"
  using assms by (simp add: ProcessTable_def Let_def split: Outcome.splits)

text \<open>
  Claim C10. The claim asks for a write per bucket, \<open>BB_DP_BUCKET_COUNT\<close> writes that add
  up to the entry count from before the iteration, and for the pruned count to be stored
  in \<open>entryCounts[rTable]\<close> after them. From every state, an iteration runs the first and
  the second step and then blocks for ever in \<open>Wait (2)\<close> of the third step: the commands
  of the third step are the seek, the read of bucket 0, its fence, the seek back and one
  write, of \<open>2 ^ 26\<close> entries, and \<open>entryCounts\<close> is as it was before the iteration.
\<close>

theorem ProcessTable_blocks_before_the_count_is_stored:
  "\<exists>s1 s2 s'.
     TableFirstStep rTable (resetTable s) = Returns s1 \<and>
     TableSecondStep rTable s1 = Returns s2 \<and>
     ProcessTable rTable s = WaitsForever 2 s' \<and>
     entryCounts s' = entryCounts s \<and>
     commands (ioQueue s')
       = commands (ioQueue s2)
         @ [SeekBucketCmd (LP_MAP rTable),
            ReadFileCmd (LP_MAP rTable) 0 B_loan 0 (unat (lMapBucketCounts s2 ! 0)),
            SignalFenceCmd 1,
            SeekFileCmd (LP_MAP rTable) 0,
            WriteFileCmd (LP_MAP rTable) 0 (2 ^ 26)]"
proof -
  from TableFirstStep_entryCounts[of rTable "resetTable s"] obtain s1 where
    s1: "TableFirstStep rTable (resetTable s) = Returns s1" "entryCounts s1 = entryCounts s"
    by auto
  from TableSecondStep_entryCounts[of rTable s1] obtain s2 where
    s2: "TableSecondStep rTable s1 = Returns s2" "entryCounts s2 = entryCounts s"
    using s1 by auto
  from TableThirdStep_blocks[of rTable s2] obtain s' where
    s': "TableThirdStep rTable s2 = WaitsForever 2 s'" "entryCounts s' = entryCounts s2"
    "commands (ioQueue s')
       = commands (ioQueue s2)
         @ [SeekBucketCmd (LP_MAP rTable),
            ReadFileCmd (LP_MAP rTable) 0 B_loan 0 (unat (lMapBucketCounts s2 ! 0)),
            SignalFenceCmd 1,
            SeekFileCmd (LP_MAP rTable) 0,
            WriteFileCmd (LP_MAP rTable) 0 (2 ^ 26)]"
    by blast
  have "ProcessTable rTable s = WaitsForever 2 s'"
    using ProcessTable_third[OF s1(1) s2(1)] s'(1) by simp
  with s1 s2 s' show ?thesis by (metis)
qed

end
